theory Spec2Isabelle
  imports Main
begin

section \<open>The connection pool of \<^verbatim>\<open>aioredis/pool.py\<close>\<close>

text \<open>
  The pool is a Python object mutated by cooperatively scheduled coroutines. The model
  passes the pool's state explicitly. A coroutine runs without interruption between two
  suspension points (\<^verbatim>\<open>yield from\<close> on something that is not ready); at a suspension
  point other tasks run. What they can do to the pool while an \<^verbatim>\<open>acquire\<close>,
  \<^verbatim>\<open>select\<close> or \<^verbatim>\<open>clear\<close> holds the condition's lock is what needs no lock: the
  plain function \<^verbatim>\<open>release\<close>, and a lease holder's use of its connection. The
  environment (the factory's outcomes, the outcomes of a connection's own \<^verbatim>\<open>select\<close>,
  and what other tasks do at each suspension) is a parameter of every operation.
\<close>

subsection \<open>Connections, errors, pool state\<close>

type_synonym conn_id = nat

text \<open>
  Modelled from the spec: the class of the connections (\<^verbatim>\<open>aioredis.commands.Redis\<close> and the
  connection under it) is not part of \<^verbatim>\<open>pool.py\<close>. The pool reads \<^verbatim>\<open>closed\<close>,
  \<^verbatim>\<open>in_transaction\<close> and \<^verbatim>\<open>db\<close> of a connection and calls \<^verbatim>\<open>close()\<close>,
  \<^verbatim>\<open>wait_closed()\<close> and \<^verbatim>\<open>select(db)\<close>. A connection is an object with an identity
  (its \<open>conn_id\<close>) and these three attributes, kept in a store.
\<close>

record connection =
  closed :: bool
  in_transaction :: bool
  conn_db :: int

datatype error = AssertionError | CreationError | SelectError | IndexError

datatype 'a result = Ok 'a | Raise error

text \<open>A task handed to the event loop by \<^verbatim>\<open>asyncio.async\<close>: a call of \<^verbatim>\<open>_wakeup\<close>
  with its argument \<^verbatim>\<open>closing_conn\<close>.\<close>

datatype task = Wakeup "conn_id option"

text \<open>What is observed of the condition and of the connections' teardown: a call of
  \<^verbatim>\<open>self._cond.notify()\<close> and a call of \<^verbatim>\<open>wait_closed()\<close> on a connection.\<close>

datatype event = Notify | WaitClosed conn_id

text \<open>
  The fields \<open>p_db\<close>, \<open>p_minsize\<close>, \<open>p_pool\<close>, \<open>p_used\<close>, \<open>p_acquiring\<close> are the attributes
  \<^verbatim>\<open>_db\<close>, \<^verbatim>\<open>_minsize\<close>, \<^verbatim>\<open>_pool\<close>, \<^verbatim>\<open>_used\<close>, \<^verbatim>\<open>_acquiring\<close> of \<^verbatim>\<open>RedisPool\<close>;
  \<open>p_maxlen\<close> is \<^verbatim>\<open>_pool.maxlen\<close>, a natural number (a negative \<^verbatim>\<open>maxlen\<close> is refused by
  \<^verbatim>\<open>collections.deque\<close>; \<^verbatim>\<open>None\<close>, the unbounded deque, is left out: \<^verbatim>\<open>create_pool\<close>
  takes an integer, 10 when none is given). The remaining fields are the world around the pool:
  the store of connection objects, the next fresh identity, the number of suspension
  points passed so far, the tasks scheduled on the event loop and not yet run, and the
  observed events.
\<close>

record pool =
  p_db :: int
  p_minsize :: nat
  p_maxlen :: nat
  p_pool :: "conn_id list"
  p_used :: "conn_id set"
  p_acquiring :: nat
  heap :: "conn_id \<Rightarrow> connection"
  next_id :: nat
  clock :: nat
  tasks :: "task list"
  trace :: "event list"

text \<open>What a task other than the running one does to the pool at a suspension point:
  it releases a connection, or a holder closes its connection, selects a database on
  it, or enters or leaves a transaction on it.\<close>

datatype action =
  Release conn_id
| Close conn_id
| SelectDb conn_id int
| SetTransaction conn_id bool

text \<open>The environment. \<open>factory_ok w k\<close>: the creation of a connection that is in flight at
  suspension \<open>k\<close> succeeds; \<open>select_ok w k\<close>: the \<^verbatim>\<open>select\<close> of a connection in flight at
  suspension \<open>k\<close> succeeds; \<open>during w k\<close>: what the other tasks do at suspension \<open>k\<close>.\<close>

record world =
  factory_ok :: "nat \<Rightarrow> bool"
  select_ok :: "nat \<Rightarrow> bool"
  during :: "nat \<Rightarrow> action list"

subsection \<open>\<^verbatim>\<open>RedisPool.__init__\<close> and the properties\<close>

definition new_connection :: "int \<Rightarrow> connection" where
  "new_connection d = \<lparr>closed = False, in_transaction = False, conn_db = d\<rparr>"

definition RedisPool_init :: "int \<Rightarrow> nat \<Rightarrow> nat \<Rightarrow> pool" where
  "RedisPool_init d m M =
     \<lparr>p_db = d, p_minsize = m, p_maxlen = M, p_pool = [], p_used = {}, p_acquiring = 0,
      heap = (\<lambda>_. new_connection d), next_id = 0, clock = 0, tasks = [], trace = []\<rparr>"

definition minsize :: "pool \<Rightarrow> nat" where
  "minsize s = p_minsize s"

definition maxsize :: "pool \<Rightarrow> nat" where
  "maxsize s = p_maxlen s"

definition freesize :: "pool \<Rightarrow> nat" where
  "freesize s = length (p_pool s)"

definition size_pool :: "pool \<Rightarrow> nat" where
  "size_pool s = freesize s + card (p_used s) + p_acquiring s"

definition db :: "pool \<Rightarrow> int" where
  "db s = p_db s"

subsection \<open>The bounded deque and \<^verbatim>\<open>close()\<close>\<close>

text \<open>\<^verbatim>\<open>deque.append\<close> on a deque made with \<^verbatim>\<open>maxlen\<close>: the item goes to the right end,
  and when the deque is then longer than \<^verbatim>\<open>maxlen\<close> the leftmost item is discarded. With
  \<^verbatim>\<open>maxlen\<close> 0 the appended item itself is discarded.\<close>

definition deque_append :: "nat \<Rightarrow> 'a list \<Rightarrow> 'a \<Rightarrow> 'a list" where
  "deque_append maxlen xs x = (let ys = xs @ [x] in if maxlen < length ys then tl ys else ys)"

text \<open>Modelled from the spec: \<^verbatim>\<open>close()\<close> of a connection; afterwards \<^verbatim>\<open>closed\<close> is true.\<close>

definition conn_close :: "conn_id \<Rightarrow> pool \<Rightarrow> pool" where
  "conn_close c s = s\<lparr>heap := (heap s)(c := (heap s c)\<lparr>closed := True\<rparr>)\<rparr>"

subsection \<open>\<^verbatim>\<open>release\<close> and \<^verbatim>\<open>_wakeup\<close>\<close>

text \<open>
  \<^verbatim>\<open>release\<close> is a plain function: it runs to its end without suspension. Its last
  statement, \<^verbatim>\<open>asyncio.async(self._wakeup(), loop=self._loop)\<close>, wraps the coroutine in a task
  and schedules it; the body of \<^verbatim>\<open>_wakeup\<close> runs when the event loop next gets control.
  The call passes no argument, so \<^verbatim>\<open>closing_conn\<close> is \<^verbatim>\<open>None\<close>. The logger call is omitted.
\<close>

definition release :: "conn_id \<Rightarrow> pool \<Rightarrow> unit result \<times> pool" where
  "release conn s =
     (if conn \<notin> p_used s then (Raise AssertionError, s)
      else
        let s1 = s\<lparr>p_used := p_used s - {conn}\<rparr>;
            s2 =
              (if \<not> closed (heap s1 conn) then
                 (if in_transaction (heap s1 conn) then conn_close conn s1
                  else if conn_db (heap s1 conn) = db s1 then
                    (if maxsize s1 \<noteq> 0 \<and> freesize s1 < maxsize s1
                     then s1\<lparr>p_pool := deque_append (p_maxlen s1) (p_pool s1) conn\<rparr>
                     else conn_close conn s1)
                  else conn_close conn s1)
               else s1)
        in (Ok (), s2\<lparr>tasks := tasks s2 @ [Wakeup None]\<rparr>))"

text \<open>\<^verbatim>\<open>_wakeup\<close>: under the lock, notify; then wait for \<^verbatim>\<open>closing_conn\<close> to be closed when
  one was given.\<close>

definition wakeup :: "conn_id option \<Rightarrow> pool \<Rightarrow> pool" where
  "wakeup closing_conn s =
     (let s1 = s\<lparr>trace := trace s @ [Notify]\<rparr>
      in case closing_conn of
           None \<Rightarrow> s1
         | Some c \<Rightarrow> s1\<lparr>trace := trace s1 @ [WaitClosed c]\<rparr>)"

text \<open>The event loop runs the oldest scheduled task.\<close>

definition run_task :: "pool \<Rightarrow> pool" where
  "run_task s =
     (case tasks s of
        [] \<Rightarrow> s
      | Wakeup cc # ts \<Rightarrow> wakeup cc (s\<lparr>tasks := ts\<rparr>))"

subsection \<open>Suspension points\<close>

fun act :: "action \<Rightarrow> pool \<Rightarrow> pool" where
  "act (Release c) s = snd (release c s)"
| "act (Close c) s = conn_close c s"
| "act (SelectDb c d) s = s\<lparr>heap := (heap s)(c := (heap s c)\<lparr>conn_db := d\<rparr>)\<rparr>"
| "act (SetTransaction c b) s = s\<lparr>heap := (heap s)(c := (heap s c)\<lparr>in_transaction := b\<rparr>)\<rparr>"

definition suspend :: "world \<Rightarrow> pool \<Rightarrow> pool" where
  "suspend w s = (fold act (during w (clock s)) s)\<lparr>clock := Suc (clock s)\<rparr>"

subsection \<open>\<^verbatim>\<open>_fill_free\<close>\<close>

text \<open>
  The statement block that \<^verbatim>\<open>_fill_free\<close> has twice: reserve (\<^verbatim>\<open>_acquiring += 1\<close>), wait
  for \<^verbatim>\<open>_create_new_connection()\<close>, append the connection to \<^verbatim>\<open>_pool\<close>, and in the
  \<^verbatim>\<open>finally\<close> clause undo the reservation. \<^verbatim>\<open>_create_new_connection\<close> reads \<^verbatim>\<open>_db\<close> when
  it is called, before the suspension.

  Modelled from the spec: \<^verbatim>\<open>create_redis\<close> is not part of \<^verbatim>\<open>pool.py\<close>; the factory
  produces a new, open connection on the database index it is given, or fails.
\<close>

definition create_into_free :: "world \<Rightarrow> pool \<Rightarrow> unit result \<times> pool" where
  "create_into_free w s =
     (let s1 = s\<lparr>p_acquiring := p_acquiring s + 1\<rparr>;
          d = p_db s1;
          ok = factory_ok w (clock s1);
          s2 = suspend w s1
      in if ok then
           let conn = next_id s2;
               s3 = s2\<lparr>heap := (heap s2)(conn := new_connection d), next_id := Suc conn\<rparr>;
               s4 = s3\<lparr>p_pool := deque_append (p_maxlen s3) (p_pool s3) conn\<rparr>
           in (Ok (), s4\<lparr>p_acquiring := p_acquiring s4 - 1\<rparr>)
         else (Raise CreationError, s2\<lparr>p_acquiring := p_acquiring s2 - 1\<rparr>))"

text \<open>The loop \<^verbatim>\<open>while self.size < self.minsize\<close>. It need not terminate, so the result is
  an option: \<open>None\<close> is the loop that runs forever.\<close>

partial_function (option) fill_min :: "world \<Rightarrow> pool \<Rightarrow> (unit result \<times> pool) option" where
  "fill_min w s =
     (if size_pool s < minsize s then
        (case create_into_free w s of
           (Raise e, s') \<Rightarrow> Some (Raise e, s')
         | (Ok u, s') \<Rightarrow> fill_min w s')
      else Some (Ok (), s))"

definition fill_free :: "world \<Rightarrow> bool \<Rightarrow> pool \<Rightarrow> (unit result \<times> pool) option" where
  "fill_free w override_min s =
     (case fill_min w s of
        None \<Rightarrow> None
      | Some (Raise e, s1) \<Rightarrow> Some (Raise e, s1)
      | Some (Ok u, s1) \<Rightarrow>
          if freesize s1 \<noteq> 0 then Some (Ok (), s1)
          else if override_min \<and> size_pool s1 < maxsize s1 then Some (create_into_free w s1)
          else Some (Ok (), s1))"

subsection \<open>\<^verbatim>\<open>create_pool\<close>\<close>

definition create_pool :: "world \<Rightarrow> int \<Rightarrow> nat \<Rightarrow> nat \<Rightarrow> (unit result \<times> pool) option" where
  "create_pool w d m M = fill_free w False (RedisPool_init d m M)"

subsection \<open>\<^verbatim>\<open>acquire\<close>\<close>

text \<open>
  One pass through the body of \<^verbatim>\<open>while True\<close>. \<open>Got conn\<close> is the \<^verbatim>\<open>return conn\<close>;
  \<open>Wait\<close> is the task suspended in \<^verbatim>\<open>self._cond.wait()\<close>, which gives the lock back. When
  the task is notified it takes the lock again and runs the body again, which is the next
  \<open>acquire\<close> of the model.
\<close>

datatype acquired = Got conn_id | Wait

definition acquire :: "world \<Rightarrow> pool \<Rightarrow> (acquired result \<times> pool) option" where
  "acquire w s =
     (case fill_free w True s of
        None \<Rightarrow> None
      | Some (Raise e, s1) \<Rightarrow> Some (Raise e, s1)
      | Some (Ok u, s1) \<Rightarrow>
          if freesize s1 \<noteq> 0 then
            let conn = hd (p_pool s1);
                s2 = s1\<lparr>p_pool := tl (p_pool s1)\<rparr>
            in if closed (heap s2 conn) then Some (Raise AssertionError, s2)
               else if conn \<in> p_used s2 then Some (Raise AssertionError, s2)
               else Some (Ok (Got conn), s2\<lparr>p_used := insert conn (p_used s2)\<rparr>)
          else Some (Ok Wait, s1))"

subsection \<open>\<^verbatim>\<open>select\<close> and \<^verbatim>\<open>clear\<close>\<close>

text \<open>
  \<^verbatim>\<open>for i in range(self.freesize)\<close>: the range is computed once. Each
  \<^verbatim>\<open>yield from self._pool[i].select(db)\<close> is a suspension. The \<^verbatim>\<open>else\<close> clause of the
  loop runs when the loop ends without an exception.

  Modelled from the spec: a connection's \<^verbatim>\<open>select(db)\<close> is not part of \<^verbatim>\<open>pool.py\<close>; when it
  succeeds the connection is on the index \<open>d\<close>, and it may fail.
\<close>

fun select_loop :: "world \<Rightarrow> int \<Rightarrow> nat list \<Rightarrow> pool \<Rightarrow> unit result \<times> pool" where
  "select_loop w d [] s = (Ok (), s\<lparr>p_db := d\<rparr>)"
| "select_loop w d (i # is) s =
     (if i < length (p_pool s) then
        let c = p_pool s ! i;
            ok = select_ok w (clock s);
            s1 = suspend w s
        in if ok then
             select_loop w d is (s1\<lparr>heap := (heap s1)(c := (heap s1 c)\<lparr>conn_db := d\<rparr>)\<rparr>)
           else (Raise SelectError, s1)
      else (Raise IndexError, s))"

definition select :: "world \<Rightarrow> int \<Rightarrow> pool \<Rightarrow> unit result \<times> pool" where
  "select w d s = select_loop w d [0..<freesize s] s"

text \<open>\<^verbatim>\<open>clear\<close>: the loop pops and closes every free connection without suspension; the
  \<^verbatim>\<open>gather\<close> of the \<^verbatim>\<open>wait_closed()\<close> calls suspends when there is one to wait for.\<close>

definition clear :: "world \<Rightarrow> pool \<Rightarrow> pool" where
  "clear w s =
     (let cs = p_pool s;
          s1 = fold conn_close cs (s\<lparr>p_pool := []\<rparr>);
          s2 = s1\<lparr>trace := trace s1 @ map WaitClosed cs\<rparr>
      in if cs = [] then s2 else suspend w s2)"

subsection \<open>Sequences of operations\<close>

text \<open>An operation on the pool, started when no other holds the lock. \<open>RunTask\<close> is the
  event loop running a scheduled \<^verbatim>\<open>_wakeup\<close>. An exception ends the operation and
  leaves the pool as it is then; a loop that never ends leaves no state.\<close>

datatype op = Acquire | Act action | Select int | Clear | RunTask

fun step :: "world \<Rightarrow> op \<Rightarrow> pool \<Rightarrow> pool option" where
  "step w Acquire s = map_option snd (acquire w s)"
| "step w (Act a) s = Some (act a s)"
| "step w (Select d) s = Some (snd (select w d s))"
| "step w Clear s = Some (clear w s)"
| "step w RunTask s = Some (run_task s)"

fun run :: "world \<Rightarrow> op list \<Rightarrow> pool \<Rightarrow> pool option" where
  "run w [] s = Some s"
| "run w (x # xs) s = (case step w x s of None \<Rightarrow> None | Some s' \<Rightarrow> run w xs s')"


subsection \<open>Observations\<close>

text \<open>The pool a caller holds after \<^verbatim>\<open>create_pool\<close> has returned it and the
  operations \<open>ops\<close> have run on it; \<open>None\<close> when \<^verbatim>\<open>create_pool\<close> raised or some
  refill never ended.\<close>

definition pool_after :: "world \<Rightarrow> int \<Rightarrow> nat \<Rightarrow> nat \<Rightarrow> op list \<Rightarrow> pool option" where
  "pool_after w d m M ops =
     (case create_pool w d m M of
        Some (Ok u, s0) \<Rightarrow> run w ops s0
      | _ \<Rightarrow> None)"

text \<open>The three summands of \<^verbatim>\<open>size\<close>: free, leased, pending.\<close>

definition census :: "pool \<Rightarrow> nat \<times> nat \<times> nat" where
  "census s = (freesize s, card (p_used s), p_acquiring s)"

text \<open>\<^verbatim>\<open>conn.closed\<close> and \<^verbatim>\<open>conn.db\<close> of the connection \<open>c\<close>.\<close>

definition is_closed :: "conn_id \<Rightarrow> pool \<Rightarrow> bool" where
  "is_closed c s = closed (heap s c)"

definition db_of :: "conn_id \<Rightarrow> pool \<Rightarrow> int" where
  "db_of c s = conn_db (heap s c)"

text \<open>The connection passes the tests of \<^verbatim>\<open>release\<close> that come before the test for
  room: it is open, not in a transaction, and on the pool's database index.\<close>

definition recycles :: "conn_id \<Rightarrow> pool \<Rightarrow> bool" where
  "recycles c s \<longleftrightarrow>
     \<not> closed (heap s c) \<and> \<not> in_transaction (heap s c) \<and> conn_db (heap s c) = db s"

text \<open>A connection the factory has produced that is neither free nor leased and on
  which \<^verbatim>\<open>close()\<close> has not been called.\<close>

definition leaked :: "conn_id \<Rightarrow> pool \<Rightarrow> bool" where
  "leaked c s \<longleftrightarrow>
     c < next_id s \<and> c \<notin> set (p_pool s) \<and> c \<notin> p_used s \<and> \<not> closed (heap s c)"

text \<open>No other task touches the pool at suspension \<open>k\<close> or later.\<close>

definition calm_from :: "world \<Rightarrow> nat \<Rightarrow> bool" where
  "calm_from w k \<longleftrightarrow> (\<forall>j. k \<le> j \<longrightarrow> during w j = [])"

text \<open>The pool after \<open>n\<close> passes through the statement block of \<^verbatim>\<open>_fill_free\<close> that creates a
  connection.\<close>

fun created :: "world \<Rightarrow> nat \<Rightarrow> pool \<Rightarrow> pool" where
  "created w 0 s = s"
| "created w (Suc n) s = created w n (snd (create_into_free w s))"

text \<open>An acquire, a release, or the event loop running a wake-up that a release has
  scheduled.\<close>

fun lease_op :: "op \<Rightarrow> bool" where
  "lease_op Acquire = True"
| "lease_op (Act (Release c)) = True"
| "lease_op RunTask = True"
| "lease_op x = False"

fun is_release :: "action \<Rightarrow> bool" where
  "is_release (Release c) = True"
| "is_release a = False"

text \<open>At every suspension the other tasks do nothing but release connections.\<close>

definition releases_only :: "world \<Rightarrow> bool" where
  "releases_only w \<longleftrightarrow> (\<forall>k. list_all is_release (during w k))"

subsection \<open>Environments\<close>

text \<open>Every creation and every \<^verbatim>\<open>select\<close> succeeds and no other task runs at a
  suspension.\<close>

definition quiet_world :: world where
  "quiet_world = \<lparr>factory_ok = (\<lambda>k. True), select_ok = (\<lambda>k. True), during = (\<lambda>k. [])\<rparr>"

text \<open>The factory succeeds once (suspension 0) and fails from then on.\<close>

definition fail_second :: world where
  "fail_second = \<lparr>factory_ok = (\<lambda>k. k < 1), select_ok = (\<lambda>k. True), during = (\<lambda>k. [])\<rparr>"

text \<open>The factory succeeds twice (suspensions 0 and 1) and fails from then on.\<close>

definition fail_third :: world where
  "fail_third = \<lparr>factory_ok = (\<lambda>k. k < 2), select_ok = (\<lambda>k. True), during = (\<lambda>k. [])\<rparr>"

text \<open>At suspension 2 another task releases the connection 1.\<close>

definition race_world :: world where
  "race_world = \<lparr>factory_ok = (\<lambda>k. True), select_ok = (\<lambda>k. True),
     during = (\<lambda>k. if k = 2 then [Release 1] else [])\<rparr>"

text \<open>The environment \<open>w\<close> with a factory that never fails.\<close>

definition always_created :: "world \<Rightarrow> world" where
  "always_created w = w\<lparr>factory_ok := (\<lambda>k. True)\<rparr>"

subsection \<open>Invariants\<close>

text \<open>The free list has no duplicates and shares no connection with the leased set, the
  leased set is finite, and every connection in either has been produced by the factory.\<close>

definition well_formed :: "pool \<Rightarrow> bool" where
  "well_formed s \<longleftrightarrow> finite (p_used s) \<and> distinct (p_pool s) \<and> set (p_pool s) \<inter> p_used s = {}
     \<and> (\<forall>c \<in> set (p_pool s) \<union> p_used s. c < next_id s)"

text \<open>Every connection the factory has produced is free, leased or closed.\<close>

definition noleak :: "pool \<Rightarrow> bool" where
  "noleak s \<longleftrightarrow> (\<forall>c < next_id s. c \<in> set (p_pool s) \<or> c \<in> p_used s \<or> closed (heap s c))"

text \<open>The invariant of a pool with \<^verbatim>\<open>minsize\<close> at most \<^verbatim>\<open>maxsize\<close>.\<close>

definition sound :: "pool \<Rightarrow> bool" where
  "sound s \<longleftrightarrow> well_formed s \<and> noleak s \<and> size_pool s \<le> maxsize s \<and> minsize s \<le> maxsize s"

text \<open>Every connection the factory has produced is as it was produced: open, not in a
  transaction, on the pool's database index.\<close>

definition pristine :: "pool \<Rightarrow> bool" where
  "pristine s \<longleftrightarrow>
     (\<forall>c < next_id s. \<not> closed (heap s c) \<and> \<not> in_transaction (heap s c)
        \<and> conn_db (heap s c) = p_db s)"

text \<open>The invariant of a pool on which nothing but acquires and releases happen.\<close>

definition steady :: "pool \<Rightarrow> bool" where
  "steady s \<longleftrightarrow> sound s \<and> pristine s"

text \<open>The pool when a creation resolves: the slot reserved, the suspension passed.\<close>

definition reserved :: "world \<Rightarrow> pool \<Rightarrow> pool" where
  "reserved w s = suspend w (s\<lparr>p_acquiring := Suc (p_acquiring s)\<rparr>)"

text \<open>A pool with \<^verbatim>\<open>maxsize\<close> 0: nothing is free, and at most \<open>n\<close> connections are
  leased.\<close>

definition drained :: "nat \<Rightarrow> pool \<Rightarrow> bool" where
  "drained n s \<longleftrightarrow> p_maxlen s = 0 \<and> p_pool s = [] \<and> card (p_used s) \<le> n"

text \<open>A pool with \<^verbatim>\<open>maxsize\<close> 0 whose leased and pending connections are fewer than
  \<^verbatim>\<open>minsize\<close>.\<close>

definition starved :: "pool \<Rightarrow> bool" where
  "starved s \<longleftrightarrow>
     p_maxlen s = 0 \<and> p_pool s = [] \<and> card (p_used s) + p_acquiring s < p_minsize s"

section \<open>Properties of the operations\<close>

subsection \<open>\<^verbatim>\<open>release\<close>\<close>

lemma deque_append_room: "length xs < maxlen \<Longrightarrow> deque_append maxlen xs x = xs @ [x]"
  by (simp add: deque_append_def)

lemma release_frame:
  "p_db (snd (release c s)) = p_db s"
  "p_minsize (snd (release c s)) = p_minsize s"
  "p_maxlen (snd (release c s)) = p_maxlen s"
  "p_acquiring (snd (release c s)) = p_acquiring s"
  "next_id (snd (release c s)) = next_id s"
  "clock (snd (release c s)) = clock s"
  "trace (snd (release c s)) = trace s"
  by (simp_all add: release_def conn_close_def Let_def)

lemma release_used: "p_used (snd (release c s)) = p_used s - {c}"
  by (simp add: release_def conn_close_def Let_def)

lemma release_pool:
  "p_pool (snd (release c s)) = p_pool s \<or>
   (c \<in> p_used s \<and> length (p_pool s) < p_maxlen s \<and> p_pool (snd (release c s)) = p_pool s @ [c])"
  by (simp add: release_def conn_close_def Let_def maxsize_def freesize_def deque_append_room)

lemma release_wf: "well_formed s \<Longrightarrow> well_formed (snd (release c s))"
  using release_pool [of c s]
  by (auto simp: well_formed_def release_used release_frame)

lemma card_remove: "finite A \<Longrightarrow> c \<in> A \<Longrightarrow> Suc (card (A - {c})) = card A"
  by (rule card_Suc_Diff1)

lemma release_size: "well_formed s \<Longrightarrow> size_pool (snd (release c s)) \<le> size_pool s"
  using release_pool [of c s] card_remove [of "p_used s" c] card_Diff_subset [of "{c}" "p_used s"]
  by (auto simp: well_formed_def size_pool_def freesize_def release_used release_frame card_Diff_singleton_if)

lemma release_noleak: "noleak s \<Longrightarrow> noleak (snd (release c s))"
  by (auto simp: noleak_def release_def conn_close_def Let_def maxsize_def freesize_def deque_append_room)

subsection \<open>The loop of \<^verbatim>\<open>_fill_free\<close>: partial correctness\<close>

lemma fill_min_rule:
  assumes run: "fill_min w s = Some (r, s')" and init: "P s"
    and step: "\<And>t. P t \<Longrightarrow> size_pool t < minsize t \<Longrightarrow> P (snd (create_into_free w t))"
  shows "P s'"
proof -
  have "w' = w \<longrightarrow> P t \<longrightarrow> P (snd y)" if "fill_min w' t = Some y" for w' t y
  proof (rule fill_min.raw_induct [where P = "\<lambda>w' t y. w' = w \<longrightarrow> P t \<longrightarrow> P (snd y)", OF _ that])
    fix f w' t y
    assume IH: "\<And>w' t y. f w' t = Some y \<Longrightarrow> w' = w \<longrightarrow> P t \<longrightarrow> P (snd y)"
      and body: "(if size_pool t < minsize t
          then case create_into_free w' t of (Ok u, s') \<Rightarrow> f w' s'
               | (Raise e, s') \<Rightarrow> Some (Raise e, s')
          else Some (Ok (), t)) = Some y"
    show "w' = w \<longrightarrow> P t \<longrightarrow> P (snd y)"
    proof (intro impI)
      assume w: "w' = w" and Pt: "P t"
      show "P (snd y)"
      proof (cases "size_pool t < minsize t")
        case False
        with body Pt show ?thesis by auto
      next
        case True
        obtain q t' where ct: "create_into_free w t = (q, t')"
          by (cases "create_into_free w t")
        have Pt': "P t'" using step [OF Pt True] ct by simp
        show ?thesis
        proof (cases q)
          case (Ok u)
          with body True ct w have "f w t' = Some y" by simp
          from IH [OF this] Pt' show ?thesis by simp
        next
          case (Raise e)
          with body True ct w Pt' show ?thesis by auto
        qed
      qed
    qed
  qed
  from this [OF run] init show ?thesis by simp
qed

lemma fill_min_exit:
  assumes "fill_min w s = Some (Ok u, s')"
  shows "minsize s' \<le> size_pool s'"
proof -
  have "fst y = Ok () \<longrightarrow> minsize (snd y) \<le> size_pool (snd y)" if "fill_min w' t = Some y" for w' t y
    by (rule fill_min.raw_induct [where P = "\<lambda>w' t y. fst y = Ok () \<longrightarrow> minsize (snd y) \<le> size_pool (snd y)", OF _ that])
      (auto split: if_splits prod.splits result.splits)
  from this [OF assms] show ?thesis by simp
qed

subsection \<open>Other tasks at a suspension\<close>

lemma act_frame:
  "p_db (act a s) = p_db s"
  "p_minsize (act a s) = p_minsize s"
  "p_maxlen (act a s) = p_maxlen s"
  "p_acquiring (act a s) = p_acquiring s"
  "next_id (act a s) = next_id s"
  "clock (act a s) = clock s"
  "trace (act a s) = trace s"
  by (cases a; simp add: release_frame conn_close_def)+

lemma act_wf: "well_formed s \<Longrightarrow> well_formed (act a s)"
  by (cases a) (simp_all add: release_wf, simp_all add: well_formed_def conn_close_def)

lemma act_size: "well_formed s \<Longrightarrow> size_pool (act a s) \<le> size_pool s"
  by (cases a) (simp_all add: release_size, simp_all add: size_pool_def freesize_def conn_close_def)

lemma act_noleak: "noleak s \<Longrightarrow> noleak (act a s)"
  by (cases a) (simp_all add: release_noleak, simp_all add: noleak_def conn_close_def)

lemma fold_act_frame:
  "p_db (fold act as s) = p_db s"
  "p_minsize (fold act as s) = p_minsize s"
  "p_maxlen (fold act as s) = p_maxlen s"
  "p_acquiring (fold act as s) = p_acquiring s"
  "next_id (fold act as s) = next_id s"
  "clock (fold act as s) = clock s"
  "trace (fold act as s) = trace s"
  by (induction as arbitrary: s; simp add: act_frame)+

lemma fold_act_wf: "well_formed s \<Longrightarrow> well_formed (fold act as s)"
  by (induction as arbitrary: s) (simp_all add: act_wf)

lemma fold_act_size: "well_formed s \<Longrightarrow> size_pool (fold act as s) \<le> size_pool s"
proof (induction as arbitrary: s)
  case Nil
  show ?case by simp
next
  case (Cons a as)
  have "size_pool (fold act as (act a s)) \<le> size_pool (act a s)"
    using Cons.IH [of "act a s"] Cons.prems by (simp add: act_wf)
  also have "\<dots> \<le> size_pool s"
    by (rule act_size [OF Cons.prems])
  finally show ?case by simp
qed

lemma fold_act_noleak: "noleak s \<Longrightarrow> noleak (fold act as s)"
  by (induction as arbitrary: s) (simp_all add: act_noleak)

lemma suspend_frame:
  "p_db (suspend w s) = p_db s"
  "p_minsize (suspend w s) = p_minsize s"
  "p_maxlen (suspend w s) = p_maxlen s"
  "p_acquiring (suspend w s) = p_acquiring s"
  "next_id (suspend w s) = next_id s"
  "clock (suspend w s) = Suc (clock s)"
  "trace (suspend w s) = trace s"
  by (simp_all add: suspend_def fold_act_frame)

lemma suspend_wf: "well_formed s \<Longrightarrow> well_formed (suspend w s)"
  using fold_act_wf [of s "during w (clock s)"] by (simp add: suspend_def well_formed_def)

lemma suspend_size: "well_formed s \<Longrightarrow> size_pool (suspend w s) \<le> size_pool s"
  using fold_act_size [of s "during w (clock s)"] by (simp add: suspend_def size_pool_def freesize_def)

lemma suspend_noleak: "noleak s \<Longrightarrow> noleak (suspend w s)"
  using fold_act_noleak [of s "during w (clock s)"] by (simp add: suspend_def noleak_def)

subsection \<open>Creating a connection\<close>

lemma deque_append_set: "set (deque_append M xs x) \<subseteq> insert x (set xs)"
  by (cases xs) (auto simp: deque_append_def Let_def)

lemma deque_append_distinct: "distinct xs \<Longrightarrow> x \<notin> set xs \<Longrightarrow> distinct (deque_append M xs x)"
  by (cases xs) (auto simp: deque_append_def Let_def)

lemma deque_append_length: "length (deque_append M xs x) \<le> Suc (length xs)"
  by (simp add: deque_append_def Let_def)

lemma create_frame:
  "p_db (snd (create_into_free w s)) = p_db s"
  "p_minsize (snd (create_into_free w s)) = p_minsize s"
  "p_maxlen (snd (create_into_free w s)) = p_maxlen s"
  "p_acquiring (snd (create_into_free w s)) = p_acquiring s"
  "clock (snd (create_into_free w s)) = Suc (clock s)"
  "trace (snd (create_into_free w s)) = trace s"
  by (simp_all add: create_into_free_def Let_def suspend_frame)

lemma acquiring_wf [simp]: "well_formed (s\<lparr>p_acquiring := n\<rparr>) = well_formed s"
  by (simp add: well_formed_def)

lemma acquiring_noleak [simp]: "noleak (s\<lparr>p_acquiring := n\<rparr>) = noleak s"
  by (simp add: noleak_def)

lemma create_into_free_alt:
  "create_into_free w s =
     (if factory_ok w (clock s) then
        (Ok (), (reserved w s)\<lparr>heap := (heap (reserved w s))(next_id (reserved w s) := new_connection (p_db s)),
           next_id := Suc (next_id (reserved w s)),
           p_pool := deque_append (p_maxlen s) (p_pool (reserved w s)) (next_id (reserved w s)),
           p_acquiring := p_acquiring s\<rparr>)
      else (Raise CreationError, (reserved w s)\<lparr>p_acquiring := p_acquiring s\<rparr>))"
  by (simp add: create_into_free_def reserved_def Let_def suspend_frame)

lemma reserved_frame:
  "p_db (reserved w s) = p_db s"
  "p_minsize (reserved w s) = p_minsize s"
  "p_maxlen (reserved w s) = p_maxlen s"
  "p_acquiring (reserved w s) = Suc (p_acquiring s)"
  "next_id (reserved w s) = next_id s"
  "clock (reserved w s) = Suc (clock s)"
  "trace (reserved w s) = trace s"
  by (simp_all add: reserved_def suspend_frame)

lemma reserved_wf: "well_formed s \<Longrightarrow> well_formed (reserved w s)"
  by (simp add: reserved_def suspend_wf)

lemma reserved_noleak: "noleak s \<Longrightarrow> noleak (reserved w s)"
  by (simp add: reserved_def suspend_noleak)

lemma reserved_size: "well_formed s \<Longrightarrow> size_pool (reserved w s) \<le> Suc (size_pool s)"
  using suspend_size [of "s\<lparr>p_acquiring := Suc (p_acquiring s)\<rparr>" w]
  by (simp add: reserved_def size_pool_def freesize_def)

lemma create_wf:
  assumes "well_formed s"
  shows "well_formed (snd (create_into_free w s))"
proof -
  have wf2: "well_formed (reserved w s)" using assms by (rule reserved_wf)
  have fresh: "next_id (reserved w s) \<notin> set (p_pool (reserved w s))"
    "next_id (reserved w s) \<notin> p_used (reserved w s)"
    using wf2 by (auto simp: well_formed_def)
  have "well_formed ((reserved w s)\<lparr>heap := h, next_id := Suc (next_id (reserved w s)),
      p_pool := deque_append M (p_pool (reserved w s)) (next_id (reserved w s))\<rparr>)" for h M
    using wf2 fresh deque_append_set [of M "p_pool (reserved w s)" "next_id (reserved w s)"]
      deque_append_distinct [of "p_pool (reserved w s)" "next_id (reserved w s)" M]
    by (auto simp: well_formed_def less_Suc_eq)
  then show ?thesis using wf2 by (simp add: create_into_free_alt)
qed

lemma create_size:
  assumes "well_formed s"
  shows "size_pool (snd (create_into_free w s)) \<le> Suc (size_pool s)"
  using reserved_size [OF assms, of w]
    deque_append_length [of "p_maxlen s" "p_pool (reserved w s)" "next_id (reserved w s)"]
  by (simp add: create_into_free_alt size_pool_def freesize_def reserved_frame)

lemma reserved_room:
  assumes "well_formed s" and "size_pool s < maxsize s"
  shows "length (p_pool (reserved w s)) < p_maxlen s"
  using reserved_size [OF assms(1), of w] assms(2)
  by (simp add: size_pool_def freesize_def maxsize_def reserved_frame)

lemma create_size_room:
  assumes "well_formed s" and "size_pool s < maxsize s"
  shows "size_pool (snd (create_into_free w s)) \<le> maxsize s"
  using reserved_size [OF assms(1), of w] assms(2) reserved_room [OF assms, of w]
  by (simp add: create_into_free_alt size_pool_def freesize_def maxsize_def reserved_frame
      deque_append_room)

lemma create_noleak:
  assumes "well_formed s" and "noleak s" and "size_pool s < maxsize s"
  shows "noleak (snd (create_into_free w s))"
proof -
  have nl2: "noleak (reserved w s)" using assms(2) by (rule reserved_noleak)
  have "noleak ((reserved w s)\<lparr>heap := (heap (reserved w s))(next_id (reserved w s) := c),
      next_id := Suc (next_id (reserved w s)),
      p_pool := p_pool (reserved w s) @ [next_id (reserved w s)]\<rparr>)" for c
    using nl2 by (auto simp: noleak_def less_Suc_eq)
  then show ?thesis using nl2 reserved_room [OF assms(1,3), of w]
    by (simp add: create_into_free_alt deque_append_room)
qed

subsection \<open>\<^verbatim>\<open>_fill_free\<close> and \<^verbatim>\<open>acquire\<close>\<close>

lemma create_sound:
  assumes "sound s" and "size_pool s < maxsize s"
  shows "sound (snd (create_into_free w s))"
  using assms create_wf [of s w] create_noleak [of s w] create_size_room [of s w]
  by (simp add: sound_def minsize_def maxsize_def create_frame)

lemma fill_free_rule:
  assumes run: "fill_free w ov s = Some (r, s')" and init: "P s"
    and step: "\<And>t. P t \<Longrightarrow> size_pool t < minsize t \<or> size_pool t < maxsize t
       \<Longrightarrow> P (snd (create_into_free w t))"
  shows "P s'"
proof -
  obtain q t where fm: "fill_min w s = Some (q, t)"
    using run by (auto simp: fill_free_def split: option.splits)
  have Pt: "P t"
    by (rule fill_min_rule [where P = P, OF fm init]) (simp add: step)
  show ?thesis
  proof (cases q)
    case (Raise e)
    with run fm Pt show ?thesis by (simp add: fill_free_def)
  next
    case (Ok u)
    with run fm Pt step [OF Pt] show ?thesis
      by (auto simp: fill_free_def split: if_splits)
  qed
qed

lemma fill_free_wf: "fill_free w ov s = Some (r, s') \<Longrightarrow> well_formed s \<Longrightarrow> well_formed s'"
  by (erule fill_free_rule) (simp_all add: create_wf)

lemma fill_free_frame:
  assumes "fill_free w ov s = Some (r, s')"
  shows "p_db s' = p_db s \<and> p_minsize s' = p_minsize s \<and> p_maxlen s' = p_maxlen s
    \<and> p_acquiring s' = p_acquiring s \<and> trace s' = trace s"
  by (rule fill_free_rule [OF assms,
        where P = "\<lambda>t. p_db t = p_db s \<and> p_minsize t = p_minsize s \<and> p_maxlen t = p_maxlen s
          \<and> p_acquiring t = p_acquiring s \<and> trace t = trace s"])
    (simp_all add: create_frame)

lemma fill_free_sound: "fill_free w ov s = Some (r, s') \<Longrightarrow> sound s \<Longrightarrow> sound s'"
proof (erule fill_free_rule)
  fix t assume "sound t" and "size_pool t < minsize t \<or> size_pool t < maxsize t"
  then have "sound t" and "size_pool t < maxsize t" by (auto simp: sound_def)
  then show "sound (snd (create_into_free w t))" by (rule create_sound)
qed

lemma acquire_cases:
  assumes "acquire w s = Some (r, s')"
  obtains (raised) e where "fill_free w True s = Some (Raise e, s')" "r = Raise e"
  | (wait) "fill_free w True s = Some (Ok (), s')" "p_pool s' = []" "r = Ok Wait"
  | (popped) t c cs where "fill_free w True s = Some (Ok (), t)" "p_pool t = c # cs"
      "s' = t\<lparr>p_pool := cs\<rparr>" "r = Raise AssertionError" "closed (heap t c) \<or> c \<in> p_used t"
  | (got) t c cs where "fill_free w True s = Some (Ok (), t)" "p_pool t = c # cs"
      "s' = t\<lparr>p_pool := cs, p_used := insert c (p_used t)\<rparr>" "r = Ok (Got c)"
      "\<not> closed (heap t c)" "c \<notin> p_used t"
proof -
  obtain q t where ff: "fill_free w True s = Some (q, t)"
    using assms by (auto simp: acquire_def split: option.splits)
  show ?thesis
  proof (cases q)
    case (Raise e)
    with assms ff raised show ?thesis by (simp add: acquire_def)
  next
    case (Ok u)
    show ?thesis
    proof (cases "p_pool t")
      case Nil
      with assms ff Ok wait show ?thesis by (simp add: acquire_def freesize_def)
    next
      case (Cons c cs)
      with assms ff Ok popped [of t c cs] got [of t c cs] show ?thesis
        by (auto simp: acquire_def freesize_def Let_def split: if_splits)
    qed
  qed
qed

lemma acquire_wf:
  assumes "acquire w s = Some (r, s')" and "well_formed s"
  shows "well_formed s'"
  using assms(1)
proof (cases rule: acquire_cases)
  case (raised e)
  then show ?thesis using assms(2) by (auto dest: fill_free_wf)
next
  case wait
  then show ?thesis using assms(2) by (auto dest: fill_free_wf)
next
  case (popped t c cs)
  with fill_free_wf [OF popped(1) assms(2)] show ?thesis by (auto simp: well_formed_def)
next
  case (got t c cs)
  with fill_free_wf [OF got(1) assms(2)] show ?thesis by (auto simp: well_formed_def)
qed

lemma acquire_sound:
  assumes "acquire w s = Some (r, s')" and "sound s"
  shows "sound s'"
  using assms(1)
proof (cases rule: acquire_cases)
  case (raised e)
  then show ?thesis using assms(2) by (auto dest: fill_free_sound)
next
  case wait
  then show ?thesis using assms(2) by (auto dest: fill_free_sound)
next
  case (popped t c cs)
  with fill_free_sound [OF popped(1) assms(2)] show ?thesis
    by (auto simp: sound_def well_formed_def noleak_def size_pool_def freesize_def minsize_def maxsize_def)
next
  case (got t c cs)
  with fill_free_sound [OF got(1) assms(2)] show ?thesis
    by (auto simp: sound_def well_formed_def noleak_def size_pool_def freesize_def minsize_def maxsize_def)
qed

lemma acquire_frame:
  assumes "acquire w s = Some (r, s')"
  shows "p_db s' = p_db s \<and> p_minsize s' = p_minsize s \<and> p_maxlen s' = p_maxlen s
    \<and> p_acquiring s' = p_acquiring s \<and> trace s' = trace s"
  using assms by (cases rule: acquire_cases) (auto dest: fill_free_frame)

subsection \<open>\<^verbatim>\<open>select\<close>, \<^verbatim>\<open>clear\<close>, scheduled tasks, sequences\<close>

lemma suspend_sound: "sound s \<Longrightarrow> sound (suspend w s)"
  using suspend_wf [of s w] suspend_noleak [of s w] suspend_size [of s w]
  by (simp add: sound_def minsize_def maxsize_def suspend_frame)

lemma act_sound: "sound s \<Longrightarrow> sound (act a s)"
  using act_wf [of s a] act_noleak [of s a] act_size [of s a]
  by (simp add: sound_def minsize_def maxsize_def act_frame)

lemma closed_set_conn_db [simp]:
  "closed ((h(c := (h c)\<lparr>conn_db := d\<rparr>)) x) = closed (h x)"
  by simp

lemma set_conn_db_wf: "well_formed s \<Longrightarrow> well_formed (s\<lparr>heap := h\<rparr>)"
  by (simp add: well_formed_def)

lemma set_conn_db_sound:
  "sound s \<Longrightarrow> sound (s\<lparr>heap := (heap s)(c := (heap s c)\<lparr>conn_db := d\<rparr>)\<rparr>)"
  unfolding sound_def well_formed_def noleak_def size_pool_def freesize_def minsize_def maxsize_def
  by (simp del: fun_upd_apply)

lemma select_loop_wf: "well_formed s \<Longrightarrow> well_formed (snd (select_loop w d is s))"
proof (induction "is" arbitrary: s)
  case Nil
  then show ?case by (simp add: well_formed_def)
next
  case (Cons i "is")
  then show ?case by (simp add: Let_def suspend_wf set_conn_db_wf)
qed

lemma select_loop_sound: "sound s \<Longrightarrow> sound (snd (select_loop w d is s))"
proof (induction "is" arbitrary: s)
  case Nil
  then show ?case
    by (simp add: sound_def well_formed_def noleak_def size_pool_def freesize_def minsize_def maxsize_def)
next
  case (Cons i "is")
  then show ?case by (simp add: Let_def suspend_sound set_conn_db_sound)
qed

lemma select_loop_frame:
  "p_minsize (snd (select_loop w d is s)) = p_minsize s \<and>
   p_maxlen (snd (select_loop w d is s)) = p_maxlen s \<and>
   p_acquiring (snd (select_loop w d is s)) = p_acquiring s \<and>
   trace (snd (select_loop w d is s)) = trace s"
  by (induction "is" arbitrary: s) (simp_all add: Let_def suspend_frame)

lemma fold_close_fields:
  "p_pool (fold conn_close cs s) = p_pool s"
  "p_used (fold conn_close cs s) = p_used s"
  "p_acquiring (fold conn_close cs s) = p_acquiring s"
  "p_minsize (fold conn_close cs s) = p_minsize s"
  "p_maxlen (fold conn_close cs s) = p_maxlen s"
  "p_db (fold conn_close cs s) = p_db s"
  "next_id (fold conn_close cs s) = next_id s"
  "trace (fold conn_close cs s) = trace s"
  by (induction cs arbitrary: s; simp add: conn_close_def)+

lemma fold_close_closed:
  "closed (heap (fold conn_close cs s) c) \<longleftrightarrow> c \<in> set cs \<or> closed (heap s c)"
  by (induction cs arbitrary: s) (auto simp: conn_close_def)

lemma closed_pool_sound:
  assumes "sound s"
  shows "sound ((fold conn_close (p_pool s) (s\<lparr>p_pool := []\<rparr>))\<lparr>trace := tr\<rparr>)"
  using assms
  by (auto simp: sound_def well_formed_def noleak_def size_pool_def freesize_def minsize_def maxsize_def
      fold_close_fields fold_close_closed)

lemma closed_pool_wf:
  assumes "well_formed s"
  shows "well_formed ((fold conn_close (p_pool s) (s\<lparr>p_pool := []\<rparr>))\<lparr>trace := tr\<rparr>)"
  using assms by (auto simp: well_formed_def fold_close_fields)

lemma clear_wf: "well_formed s \<Longrightarrow> well_formed (clear w s)"
  using closed_pool_wf
    [of s "trace (fold conn_close (p_pool s) (s\<lparr>p_pool := []\<rparr>)) @ map WaitClosed (p_pool s)"]
  by (auto simp: clear_def Let_def suspend_wf)

lemma clear_sound: "sound s \<Longrightarrow> sound (clear w s)"
  using closed_pool_sound
    [of s "trace (fold conn_close (p_pool s) (s\<lparr>p_pool := []\<rparr>)) @ map WaitClosed (p_pool s)"]
  by (auto simp: clear_def Let_def suspend_sound)

lemma clear_frame:
  "p_minsize (clear w s) = p_minsize s \<and> p_maxlen (clear w s) = p_maxlen s
   \<and> p_acquiring (clear w s) = p_acquiring s"
  by (simp add: clear_def Let_def suspend_frame fold_close_fields)

lemma run_task_fields:
  "p_pool (run_task s) = p_pool s"
  "p_used (run_task s) = p_used s"
  "p_acquiring (run_task s) = p_acquiring s"
  "p_minsize (run_task s) = p_minsize s"
  "p_maxlen (run_task s) = p_maxlen s"
  "p_db (run_task s) = p_db s"
  "next_id (run_task s) = next_id s"
  "heap (run_task s) = heap s"
  by (simp_all add: run_task_def wakeup_def Let_def split: list.splits task.splits option.splits)

lemma run_task_wf: "well_formed s \<Longrightarrow> well_formed (run_task s)"
  by (simp add: well_formed_def run_task_fields)

lemma run_task_sound: "sound s \<Longrightarrow> sound (run_task s)"
  by (simp add: sound_def well_formed_def noleak_def size_pool_def freesize_def minsize_def maxsize_def
      run_task_fields)

lemma step_wf: "step w x s = Some s' \<Longrightarrow> well_formed s \<Longrightarrow> well_formed s'"
  by (cases x) (auto simp: act_wf select_def select_loop_wf clear_wf run_task_wf dest: acquire_wf)

lemma step_sound: "step w x s = Some s' \<Longrightarrow> sound s \<Longrightarrow> sound s'"
  by (cases x)
    (auto simp: act_sound select_def select_loop_sound clear_sound run_task_sound dest: acquire_sound)

lemma step_frame:
  assumes "step w x s = Some s'"
  shows "p_minsize s' = p_minsize s \<and> p_maxlen s' = p_maxlen s \<and> p_acquiring s' = p_acquiring s"
  using assms
  by (cases x)
    (auto simp: act_frame select_def select_loop_frame clear_frame run_task_fields dest: acquire_frame)

lemma run_wf: "run w xs s = Some s' \<Longrightarrow> well_formed s \<Longrightarrow> well_formed s'"
  by (induction xs arbitrary: s) (auto split: option.splits dest: step_wf)

lemma run_sound: "run w xs s = Some s' \<Longrightarrow> sound s \<Longrightarrow> sound s'"
  by (induction xs arbitrary: s) (auto split: option.splits dest: step_sound)

lemma run_frame:
  "run w xs s = Some s' \<Longrightarrow>
   p_minsize s' = p_minsize s \<and> p_maxlen s' = p_maxlen s \<and> p_acquiring s' = p_acquiring s"
proof (induction xs arbitrary: s)
  case Nil
  then show ?case by simp
next
  case (Cons x xs)
  then obtain t where st: "step w x s = Some t" and rn: "run w xs t = Some s'"
    by (auto split: option.splits)
  from Cons.IH [OF rn] step_frame [OF st] show ?case by simp
qed

lemma init_wf: "well_formed (RedisPool_init d m M)"
  by (simp add: well_formed_def RedisPool_init_def)

lemma init_sound: "m \<le> M \<Longrightarrow> sound (RedisPool_init d m M)"
  by (simp add: sound_def well_formed_def noleak_def size_pool_def freesize_def minsize_def maxsize_def
      RedisPool_init_def)

lemma create_pool_wf: "create_pool w d m M = Some (r, s) \<Longrightarrow> well_formed s"
  unfolding create_pool_def by (erule fill_free_wf) (rule init_wf)

lemma create_pool_sound: "m \<le> M \<Longrightarrow> create_pool w d m M = Some (r, s) \<Longrightarrow> sound s"
  unfolding create_pool_def by (erule fill_free_sound) (rule init_sound)

lemma create_pool_frame:
  assumes "create_pool w d m M = Some (r, s)"
  shows "p_minsize s = m \<and> p_maxlen s = M \<and> p_acquiring s = 0"
  using fill_free_frame [OF assms [unfolded create_pool_def]]
  by (simp add: RedisPool_init_def)

subsection \<open>Evaluation on concrete pools\<close>

lemmas pool_eval =
  pool_after_def create_pool_def fill_free_def fill_min.simps acquire_def release_def
  create_into_free_def suspend_def select_def clear_def run_task_def wakeup_def conn_close_def
  RedisPool_init_def new_connection_def deque_append_def
  size_pool_def freesize_def minsize_def maxsize_def db_def census_def is_closed_def db_of_def
  Let_def

lemma after_SomeD:
  assumes "pool_after w d m M ops = Some s"
  obtains s0 where "create_pool w d m M = Some (Ok (), s0)" and "run w ops s0 = Some s"
  using assms by (auto simp: pool_after_def split: option.splits prod.splits result.splits)

lemma after_wf: "pool_after w d m M ops = Some s \<Longrightarrow> well_formed s"
  by (erule after_SomeD) (auto dest: create_pool_wf run_wf)

lemma after_sound: "m \<le> M \<Longrightarrow> pool_after w d m M ops = Some s \<Longrightarrow> sound s"
  by (erule after_SomeD) (auto dest: create_pool_sound run_sound)

lemma release_size_exact:
  assumes "sound s" and "c \<in> p_used s"
  shows "size_pool (snd (release c s)) = (if recycles c s then size_pool s else size_pool s - 1)"
proof -
  have fin: "finite (p_used s)" using assms(1) by (simp add: sound_def well_formed_def)
  have card: "Suc (card (p_used s - {c})) = card (p_used s)"
    using fin assms(2) by (rule card_remove)
  have room: "p_maxlen s \<noteq> 0 \<and> length (p_pool s) < p_maxlen s"
    using assms(1) card by (simp add: sound_def size_pool_def freesize_def maxsize_def)
  show ?thesis
    using assms(2) card room
    by (simp add: release_def recycles_def conn_close_def Let_def size_pool_def freesize_def
        maxsize_def db_def deque_append_room)
qed

subsection \<open>Pools on which only acquires and releases happen\<close>

lemma release_recycled:
  assumes "c \<in> p_used s" and "recycles c s" and "length (p_pool s) < p_maxlen s"
  shows "snd (release c s) =
    s\<lparr>p_used := p_used s - {c}, p_pool := p_pool s @ [c], tasks := tasks s @ [Wakeup None]\<rparr>"
  using assms
  by (simp add: release_def recycles_def Let_def maxsize_def freesize_def db_def deque_append_room)

lemma release_steady:
  assumes "steady s"
  shows "steady (snd (release c s)) \<and> size_pool (snd (release c s)) = size_pool s"
proof (cases "c \<in> p_used s")
  case False
  then show ?thesis using assms by (simp add: release_def)
next
  case True
  have so: "sound s" and pr: "pristine s" using assms by (simp_all add: steady_def)
  have "c < next_id s" using so True by (auto simp: sound_def well_formed_def)
  then have rec: "recycles c s" using pr by (simp add: pristine_def recycles_def db_def)
  have fin: "finite (p_used s)" using so by (simp add: sound_def well_formed_def)
  have "Suc (card (p_used s - {c})) = card (p_used s)" using fin True by (rule card_remove)
  then have room: "length (p_pool s) < p_maxlen s"
    using so by (simp add: sound_def size_pool_def freesize_def maxsize_def)
  have eq: "snd (release c s) =
      s\<lparr>p_used := p_used s - {c}, p_pool := p_pool s @ [c], tasks := tasks s @ [Wakeup None]\<rparr>"
    using True rec room by (rule release_recycled)
  have "sound (snd (release c s))" using act_sound [OF so, of "Release c"] by simp
  moreover have "pristine (snd (release c s))" using pr by (simp add: eq pristine_def)
  moreover have "size_pool (snd (release c s)) = size_pool s"
    using release_size_exact [OF so True] rec by simp
  ultimately show ?thesis by (simp add: steady_def)
qed

lemma fold_release_steady:
  "list_all is_release as \<Longrightarrow> steady s \<Longrightarrow>
   steady (fold act as s) \<and> size_pool (fold act as s) = size_pool s"
proof (induction as arbitrary: s)
  case Nil
  then show ?case by simp
next
  case (Cons a as)
  from Cons.prems(1) obtain c where a: "a = Release c" and rest: "list_all is_release as"
    by (cases a) auto
  from release_steady [OF Cons.prems(2), of c]
  have st: "steady (act a s)" and sz: "size_pool (act a s) = size_pool s"
    by (simp_all add: a)
  from Cons.IH [OF rest st] sz show ?case by simp
qed

lemma clock_steady [simp]: "steady (s\<lparr>clock := k\<rparr>) = steady s"
  by (simp add: steady_def sound_def well_formed_def noleak_def pristine_def size_pool_def freesize_def
      minsize_def maxsize_def)

lemma suspend_steady:
  assumes "releases_only w" and "steady s"
  shows "steady (suspend w s) \<and> size_pool (suspend w s) = size_pool s"
proof -
  have "list_all is_release (during w (clock s))" using assms(1) by (simp add: releases_only_def)
  from fold_release_steady [OF this assms(2)] show ?thesis
    by (simp add: suspend_def size_pool_def freesize_def)
qed

lemma create_steady:
  assumes "releases_only w" and "steady s" and "size_pool s < maxsize s"
  shows "steady (snd (create_into_free w s))
    \<and> size_pool s \<le> size_pool (snd (create_into_free w s))"
proof -
  let ?r = "reserved w s"
  have so: "sound s" and pr: "pristine s" using assms(2) by (simp_all add: steady_def)
  have "steady (s\<lparr>p_acquiring := Suc (p_acquiring s)\<rparr>)"
    using assms(2,3)
    by (simp add: steady_def sound_def pristine_def size_pool_def freesize_def minsize_def
        maxsize_def)
  from suspend_steady [OF assms(1) this]
  have str: "steady ?r" and szr: "size_pool ?r = Suc (size_pool s)"
    by (simp_all add: reserved_def size_pool_def freesize_def)
  have prr: "pristine ?r" using str by (simp add: steady_def)
  have room: "length (p_pool ?r) < p_maxlen s"
    using so assms(3) by (intro reserved_room) (simp_all add: sound_def)
  have so': "sound (snd (create_into_free w s))" using so assms(3) by (rule create_sound)
  have pr': "pristine (snd (create_into_free w s))"
    using prr
    by (auto simp: create_into_free_alt pristine_def reserved_frame new_connection_def less_Suc_eq)
  have "size_pool s \<le> size_pool (snd (create_into_free w s))"
    using szr room
    by (simp add: create_into_free_alt size_pool_def freesize_def reserved_frame deque_append_room)
  with so' pr' show ?thesis by (simp add: steady_def)
qed

lemma fill_free_steady:
  assumes "fill_free w ov s = Some (r, s')" and "releases_only w" and "steady s"
    and "k \<le> size_pool s"
  shows "steady s' \<and> k \<le> size_pool s'"
proof (rule fill_free_rule [OF assms(1), where P = "\<lambda>t. steady t \<and> k \<le> size_pool t"])
  show "steady s \<and> k \<le> size_pool s" using assms(3,4) by simp
next
  fix t
  assume P: "steady t \<and> k \<le> size_pool t"
    and "size_pool t < minsize t \<or> size_pool t < maxsize t"
  then have lt: "size_pool t < maxsize t" by (auto simp: steady_def sound_def)
  from create_steady [OF assms(2) _ lt, of ] P
  show "steady (snd (create_into_free w t)) \<and> k \<le> size_pool (snd (create_into_free w t))"
    by auto
qed

lemma acquire_steady:
  assumes "acquire w s = Some (r, s')" and "releases_only w" and "steady s"
    and "k \<le> size_pool s"
  shows "steady s' \<and> k \<le> size_pool s'"
  using assms(1)
proof (cases rule: acquire_cases)
  case (raised e)
  from fill_free_steady [OF raised(1) assms(2,3,4)] show ?thesis .
next
  case wait
  from fill_free_steady [OF wait(1) assms(2,3,4)] show ?thesis .
next
  case (popped t c cs)
  from fill_free_steady [OF popped(1) assms(2,3,4)] have st: "steady t" by simp
  then have "c < next_id t" and "c \<notin> p_used t"
    using popped(2) by (auto simp: steady_def sound_def well_formed_def)
  then have False using st popped(5) by (auto simp: steady_def pristine_def)
  then show ?thesis ..
next
  case (got t c cs)
  from fill_free_steady [OF got(1) assms(2,3,4)]
  have st: "steady t" and sz: "k \<le> size_pool t" by simp_all
  have fin: "finite (p_used t)" using st by (simp add: steady_def sound_def well_formed_def)
  have size: "size_pool s' = size_pool t"
    using got(2,3,6) fin by (simp add: size_pool_def freesize_def)
  have "sound s'" using assms(1) assms(3) by (auto simp: steady_def dest: acquire_sound)
  moreover have "pristine s'" using st got(3) by (simp add: steady_def pristine_def)
  ultimately show ?thesis using sz size by (simp add: steady_def)
qed

lemma run_task_steady: "steady s \<Longrightarrow> steady (run_task s) \<and> size_pool (run_task s) = size_pool s"
  using run_task_sound [of s]
  by (simp add: steady_def pristine_def size_pool_def freesize_def run_task_fields)

lemma step_steady:
  assumes "step w x s = Some s'" and "lease_op x" and "releases_only w"
    and "steady s" and "minsize s \<le> size_pool s"
  shows "steady s' \<and> minsize s' \<le> size_pool s'"
proof (cases x)
  case Acquire
  then obtain r where a: "acquire w s = Some (r, s')" using assms(1) by auto
  from acquire_steady [OF a assms(3,4,5)] acquire_frame [OF a] show ?thesis
    by (simp add: minsize_def)
next
  case (Act a)
  then obtain c where "a = Release c" using assms(2) by (cases a) auto
  with Act assms(1) have s': "s' = snd (release c s)" by simp
  from release_steady [OF assms(4), of c] assms(5) show ?thesis
    by (simp add: s' minsize_def release_frame)
next
  case (Select d)
  then show ?thesis using assms(2) by simp
next
  case Clear
  then show ?thesis using assms(2) by simp
next
  case RunTask
  then have "s' = run_task s" using assms(1) by simp
  with run_task_steady [OF assms(4)] assms(5) show ?thesis
    by (simp add: minsize_def run_task_fields)
qed

lemma run_steady:
  "run w xs s = Some s' \<Longrightarrow> list_all lease_op xs \<Longrightarrow> releases_only w \<Longrightarrow>
   steady s \<Longrightarrow> minsize s \<le> size_pool s \<Longrightarrow> steady s' \<and> minsize s' \<le> size_pool s'"
proof (induction xs arbitrary: s)
  case Nil
  then show ?case by simp
next
  case (Cons x xs)
  from Cons.prems(1) obtain t where st: "step w x s = Some t" and rn: "run w xs t = Some s'"
    by (auto split: option.splits)
  from Cons.prems(2) have x: "lease_op x" and xs: "list_all lease_op xs" by simp_all
  from step_steady [OF st x Cons.prems(3,4,5)]
  have "steady t" and "minsize t \<le> size_pool t" by simp_all
  from Cons.IH [OF rn xs Cons.prems(3) this] show ?case .
qed

lemma create_pool_steady:
  assumes "m \<le> M" and "create_pool w d m M = Some (Ok (), s0)" and "releases_only w"
  shows "steady s0 \<and> minsize s0 \<le> size_pool s0"
proof -
  have init: "steady (RedisPool_init d m M)"
    using init_sound [OF assms(1), of d]
    by (simp add: steady_def pristine_def) (simp add: RedisPool_init_def)
  have ff: "fill_free w False (RedisPool_init d m M) = Some (Ok (), s0)"
    using assms(2) by (simp add: create_pool_def)
  from fill_free_steady [OF ff assms(3) init, of 0] have st: "steady s0" by simp
  obtain t where fm: "fill_min w (RedisPool_init d m M) = Some (Ok (), t)" and t: "s0 = t"
    using ff by (auto simp: fill_free_def split: option.splits result.splits if_splits)
  have "minsize t \<le> size_pool t" using fm by (rule fill_min_exit)
  with st t show ?thesis by simp
qed

text \<open>
  With \<^verbatim>\<open>minsize\<close> at most \<^verbatim>\<open>maxsize\<close> the bounded deque never has to evict: in every
  pool reached from \<^verbatim>\<open>create_pool\<close>, every connection the factory has produced is in the
  free list, in the leased set, or closed.
\<close>

lemma no_leak_reachable:
  assumes "m \<le> M" and "pool_after w d m M ops = Some s"
  shows "\<not> leaked c s"
  using after_sound [OF assms] by (auto simp: sound_def noleak_def leaked_def)

subsection \<open>A pool with \<^verbatim>\<open>maxsize\<close> 0\<close>

lemma release_drained: "drained n s \<Longrightarrow> drained n (snd (release c s))"
  using card_Diff1_le [of "p_used s" c]
  by (auto simp: drained_def release_def conn_close_def Let_def maxsize_def)

lemma act_drained: "drained n s \<Longrightarrow> drained n (act a s)"
  by (cases a) (simp_all add: release_drained, simp_all add: drained_def conn_close_def)

lemma fold_act_drained: "drained n s \<Longrightarrow> drained n (fold act as s)"
  by (induction as arbitrary: s) (simp_all add: act_drained)

lemma reserved_drained: "drained n s \<Longrightarrow> drained n (reserved w s)"
  using fold_act_drained [of n "s\<lparr>p_acquiring := Suc (p_acquiring s)\<rparr>"
      "during w (clock s)"]
  by (simp add: reserved_def suspend_def drained_def)

lemma create_starved:
  assumes "factory_ok w (clock s)" and "starved s"
  shows "fst (create_into_free w s) = Ok () \<and> starved (snd (create_into_free w s))"
proof -
  have "drained (card (p_used s)) s" using assms(2) by (simp add: starved_def drained_def)
  then have "drained (card (p_used s)) (reserved w s)" by (rule reserved_drained)
  then show ?thesis using assms
    by (simp add: create_into_free_alt starved_def drained_def deque_append_def reserved_frame)
qed

lemma starved_size: "starved s \<Longrightarrow> size_pool s < minsize s"
  by (simp add: starved_def size_pool_def freesize_def minsize_def)

lemma fill_min_starved:
  assumes ok: "\<And>k. factory_ok w k" and st: "starved s"
  shows "fill_min w s = None"
proof (rule ccontr)
  assume "fill_min w s \<noteq> None"
  then obtain y where y: "fill_min w s = Some y" by auto
  have "w' = w \<longrightarrow> \<not> starved t" if "fill_min w' t = Some y'" for w' t y'
  proof (rule fill_min.raw_induct [where P = "\<lambda>w' t y'. w' = w \<longrightarrow> \<not> starved t", OF _ that])
    fix f w' t y'
    assume IH: "\<And>w' t y'. f w' t = Some y' \<Longrightarrow> w' = w \<longrightarrow> \<not> starved t"
      and body: "(if size_pool t < minsize t
          then case create_into_free w' t of (Ok u, s') \<Rightarrow> f w' s'
               | (Raise e, s') \<Rightarrow> Some (Raise e, s')
          else Some (Ok (), t)) = Some y'"
    show "w' = w \<longrightarrow> \<not> starved t"
    proof (intro impI notI)
      assume w: "w' = w" and stt: "starved t"
      obtain t' where ct: "create_into_free w t = (Ok (), t')" and st': "starved t'"
        using create_starved [OF ok stt, of ] by (cases "create_into_free w t") auto
      from body w ct starved_size [OF stt] have "f w t' = Some y'" by simp
      from IH [OF this] st' show False by simp
    qed
  qed
  from this [OF y] st show False by simp
qed

subsection \<open>A failing factory\<close>

lemma create_fails:
  assumes "\<not> factory_ok w (clock s)"
  shows "create_into_free w s = (Raise CreationError, (reserved w s)\<lparr>p_acquiring := p_acquiring s\<rparr>)"
  using assms by (simp add: create_into_free_alt)

lemma fill_free_fails:
  assumes "\<not> factory_ok w (clock s)"
    and "size_pool s < minsize s \<or> (freesize s = 0 \<and> ov \<and> size_pool s < maxsize s)"
  shows "fill_free w ov s = Some (Raise CreationError, snd (create_into_free w s))"
proof (cases "size_pool s < minsize s")
  case True
  then have "fill_min w s = Some (Raise CreationError, snd (create_into_free w s))"
    using assms(1) by (subst fill_min.simps) (simp add: create_fails)
  then show ?thesis by (simp add: fill_free_def)
next
  case False
  then have "fill_min w s = Some (Ok (), s)"
    by (subst fill_min.simps) simp
  then show ?thesis using False assms by (simp add: fill_free_def create_fails)
qed

lemma acquire_raises:
  "fill_free w True s = Some (Raise e, s') \<Longrightarrow> acquire w s = Some (Raise e, s')"
  by (simp add: acquire_def)

lemma quiet_failed_attempt:
  assumes "\<not> factory_ok w (clock s)" and "during w (clock s) = []"
  shows "snd (create_into_free w s) = s\<lparr>clock := Suc (clock s)\<rparr>"
  using assms by (simp add: create_into_free_def suspend_def Let_def)

lemma create_ok: "factory_ok w (clock s) \<Longrightarrow> fst (create_into_free w s) = Ok ()"
  by (simp add: create_into_free_alt)

lemma created_frame:
  "clock (created w n s) = clock s + n \<and> p_acquiring (created w n s) = p_acquiring s"
  by (induction n arbitrary: s) (simp_all add: create_frame)

lemma fill_min_created:
  "(\<forall>i < n. size_pool (created w i s) < minsize (created w i s) \<and> factory_ok w (clock s + i))
   \<Longrightarrow> fill_min w s = fill_min w (created w n s)"
proof (induction n arbitrary: s)
  case 0
  show ?case by simp
next
  case (Suc n)
  let ?s1 = "snd (create_into_free w s)"
  from Suc.prems have lt: "size_pool s < minsize s" and ok: "factory_ok w (clock s)"
    by (auto dest: spec [of _ 0])
  obtain t where c: "create_into_free w s = (Ok (), t)"
    using create_ok [OF ok] by (cases "create_into_free w s") simp
  have "fill_min w s = fill_min w t"
    using lt c by (subst fill_min.simps) simp
  then have one: "fill_min w s = fill_min w ?s1"
    using c by simp
  have "\<forall>i < n. size_pool (created w i ?s1) < minsize (created w i ?s1)
      \<and> factory_ok w (clock ?s1 + i)"
  proof (intro allI impI)
    fix i assume "i < n"
    then have "Suc i < Suc n" by simp
    with Suc.prems have "size_pool (created w (Suc i) s) < minsize (created w (Suc i) s)
        \<and> factory_ok w (clock s + Suc i)" by blast
    then show "size_pool (created w i ?s1) < minsize (created w i ?s1)
        \<and> factory_ok w (clock ?s1 + i)" by (simp add: create_frame)
  qed
  from Suc.IH [OF this] one show ?case by simp
qed

lemma fill_free_created:
  assumes "\<forall>i < n. size_pool (created w i s) < minsize (created w i s) \<and> factory_ok w (clock s + i)"
  shows "fill_free w ov s = fill_free w ov (created w n s)"
  using fill_min_created [OF assms] by (simp add: fill_free_def)

subsection \<open>The loop of \<^verbatim>\<open>select\<close>\<close>

lemma select_loop_ok:
  "select_loop w d is s = (Ok u, s') \<Longrightarrow>
   p_db s' = d \<and> (\<forall>q < length is. select_ok w (clock s + q))"
proof (induction "is" arbitrary: s)
  case Nil
  then show ?case by auto
next
  case (Cons i "is")
  let ?t = "(suspend w s)\<lparr>heap := (heap (suspend w s))
      (p_pool s ! i := (heap (suspend w s) (p_pool s ! i))\<lparr>conn_db := d\<rparr>)\<rparr>"
  from Cons.prems have ok: "select_ok w (clock s)"
    and rest: "select_loop w d is ?t = (Ok u, s')"
    by (auto simp: Let_def split: if_splits)
  have ck: "clock ?t = Suc (clock s)" by (simp add: suspend_frame)
  from Cons.IH [OF rest] ck
  have db: "p_db s' = d" and later: "\<forall>q < length is. select_ok w (Suc (clock s) + q)"
    by simp_all
  have "select_ok w (clock s + q)" if "q < length (i # is)" for q
    using that ok later by (cases q) auto
  with db show ?case by blast
qed

lemma select_loop_raise:
  "select_loop w d is s = (Raise e, s') \<Longrightarrow> p_db s' = p_db s"
proof (induction "is" arbitrary: s)
  case Nil
  then show ?case by simp
next
  case (Cons i "is")
  show ?case
  proof (cases "i < length (p_pool s) \<and> select_ok w (clock s)")
    case False
    with Cons.prems show ?thesis by (auto simp: Let_def suspend_frame split: if_splits)
  next
    case True
    with Cons.prems Cons.IH show ?thesis
      by (fastforce simp: Let_def suspend_frame)
  qed
qed

lemma calm_suspend: "calm_from w (clock s) \<Longrightarrow> suspend w s = s\<lparr>clock := Suc (clock s)\<rparr>"
  by (simp add: calm_from_def suspend_def)

lemma calm_Suc: "calm_from w k \<Longrightarrow> calm_from w (Suc k)"
  by (simp add: calm_from_def)

lemma select_loop_calm_pool:
  "calm_from w (clock s) \<Longrightarrow> p_pool (snd (select_loop w d is s)) = p_pool s"
proof (induction "is" arbitrary: s)
  case Nil
  show ?case by simp
next
  case (Cons i "is")
  then show ?case by (simp add: Let_def calm_suspend calm_Suc)
qed

lemma select_loop_keeps:
  "calm_from w (clock s) \<Longrightarrow> conn_db (heap s x) = d \<Longrightarrow>
   conn_db (heap (snd (select_loop w d is s)) x) = d"
proof (induction "is" arbitrary: s)
  case Nil
  then show ?case by simp
next
  case (Cons i "is")
  then show ?case by (simp add: Let_def calm_suspend calm_Suc)
qed

lemma select_loop_switched:
  assumes "calm_from w (clock s)" and "q < length is"
    and "\<forall>p \<le> q. select_ok w (clock s + p)" and "\<forall>p \<le> q. is ! p < length (p_pool s)"
  shows "conn_db (heap (snd (select_loop w d is s)) (p_pool s ! (is ! q))) = d"
  using assms
proof (induction "is" arbitrary: s q)
  case Nil
  then show ?case by simp
next
  case (Cons i "is")
  let ?t = "s\<lparr>clock := Suc (clock s),
      heap := (heap s)(p_pool s ! i := (heap s (p_pool s ! i))\<lparr>conn_db := d\<rparr>)\<rparr>"
  have ok0: "select_ok w (clock s)" and in0: "i < length (p_pool s)"
    using Cons.prems(3,4) by auto
  have unfold: "select_loop w d (i # is) s = select_loop w d is ?t"
    using ok0 in0 Cons.prems(1) by (simp add: Let_def calm_suspend)
  have calm: "calm_from w (clock ?t)" using Cons.prems(1) by (simp add: calm_Suc)
  show ?case
  proof (cases q)
    case 0
    have "conn_db (heap ?t (p_pool s ! i)) = d" by simp
    from select_loop_keeps [OF calm this] unfold 0 show ?thesis by simp
  next
    case (Suc q')
    have a: "q' < length is" using Cons.prems(2) Suc by simp
    have b: "\<forall>p \<le> q'. select_ok w (clock ?t + p)"
      using Cons.prems(3) Suc by auto
    have c: "\<forall>p \<le> q'. is ! p < length (p_pool ?t)"
      using Cons.prems(4) Suc by auto
    from Cons.IH [OF calm a b c] unfold Suc show ?thesis by simp
  qed
qed

text \<open>
  What \<^verbatim>\<open>select(d)\<close> does on the pool \<open>s\<close>: when it returns, the pool's index is \<open>d\<close> and
  every one of the \<^verbatim>\<open>freesize\<close> switches has succeeded; when it raises, the pool's index is
  the one before; when some switch fails, it raises; when the free list is empty, it
  returns the pool with the new index and nothing else changed. When no other task
  touches the pool meanwhile, every free connection whose switch was reached and
  succeeded is on the index \<open>d\<close> afterwards.
\<close>

lemma select_outcomes:
  "(select w d s = (Ok (), s') \<longrightarrow> db s' = d \<and> (\<forall>i < freesize s. select_ok w (clock s + i)))
   \<and> (select w d s = (Raise e, s') \<longrightarrow> db s' = db s)
   \<and> ((\<exists>i < freesize s. \<not> select_ok w (clock s + i)) \<longrightarrow> (\<exists>x. fst (select w d s) = Raise x))
   \<and> (p_pool s = [] \<longrightarrow> select w d s = (Ok (), s\<lparr>p_db := d\<rparr>))
   \<and> (calm_from w (clock s) \<longrightarrow>
        (\<forall>j < freesize s. (\<forall>i \<le> j. select_ok w (clock s + i)) \<longrightarrow>
           conn_db (heap (snd (select w d s)) (p_pool s ! j)) = d))"
proof -
  have ok: "db s' = d \<and> (\<forall>i < freesize s. select_ok w (clock s + i))"
    if "select w d s = (Ok (), s')" for s'
    using select_loop_ok [of w d "[0..<freesize s]" s "()" s'] that
    by (simp add: select_def db_def)
  have raise: "select w d s = (Raise e, s') \<longrightarrow> db s' = db s"
    by (auto simp: select_def db_def dest: select_loop_raise)
  have fails: "\<exists>x. fst (select w d s) = Raise x" if "\<exists>i < freesize s. \<not> select_ok w (clock s + i)"
  proof (cases "fst (select w d s)")
    case (Ok u)
    then have "select w d s = (Ok (), snd (select w d s))"
      by (cases "select w d s") simp
    from ok [OF this] that show ?thesis by blast
  next
    case (Raise x)
    then show ?thesis by blast
  qed
  have empty: "p_pool s = [] \<longrightarrow> select w d s = (Ok (), s\<lparr>p_db := d\<rparr>)"
    by (simp add: select_def freesize_def)
  have switched: "conn_db (heap (snd (select w d s)) (p_pool s ! j)) = d"
    if "calm_from w (clock s)" "j < freesize s" "\<forall>i \<le> j. select_ok w (clock s + i)" for j
    using select_loop_switched [of w s j "[0..<freesize s]" d] that
    by (simp add: select_def freesize_def)
  from ok raise fails empty switched show ?thesis by blast
qed

section \<open>The claims\<close>

text \<open>
  Claim C1. Take \<^verbatim>\<open>minsize\<close> \<open>m\<close> at most \<^verbatim>\<open>maxsize\<close> \<open>M\<close> and a pool that
  \<^verbatim>\<open>create_pool\<close> returned. After any sequence of operations, with any outcomes of the
  factory and anything other tasks do at the suspension points, no creation is in flight
  (pending is 0) and free + leased is at most \<open>M\<close>. When the operations are acquires and
  releases (and the wake-ups that releases schedule), and other tasks do nothing but
  release at the suspension points, free + leased + pending is at least \<open>m\<close>.
\<close>

theorem C1_size_bounds:
  assumes "m \<le> M" and "pool_after w d m M ops = Some s"
  shows "p_acquiring s = 0 \<and> freesize s + card (p_used s) \<le> M
    \<and> (list_all lease_op ops \<and> releases_only w \<longrightarrow>
          m \<le> freesize s + card (p_used s) + p_acquiring s)"
proof -
  obtain s0 where cp: "create_pool w d m M = Some (Ok (), s0)" and rn: "run w ops s0 = Some s"
    using assms(2) by (rule after_SomeD)
  have cfg0: "p_minsize s0 = m \<and> p_maxlen s0 = M \<and> p_acquiring s0 = 0"
    using cp by (rule create_pool_frame)
  have cfg: "p_minsize s = m \<and> p_maxlen s = M \<and> p_acquiring s = 0"
    using run_frame [OF rn] cfg0 by simp
  have inv: "sound s" using assms by (rule after_sound)
  have upper: "freesize s + card (p_used s) \<le> M"
    using inv cfg by (simp add: sound_def size_pool_def maxsize_def)
  have lower: "m \<le> freesize s + card (p_used s) + p_acquiring s"
    if ops: "list_all lease_op ops" and w: "releases_only w"
  proof -
    from create_pool_steady [OF assms(1) cp w]
    have "steady s0" and "minsize s0 \<le> size_pool s0" by simp_all
    from run_steady [OF rn ops w this] have "minsize s \<le> size_pool s" by simp
    then show ?thesis using cfg by (simp add: minsize_def size_pool_def)
  qed
  from cfg upper lower show ?thesis by blast
qed

text \<open>
  Claim C1, an instance of the theorem: \<open>m = 1\<close>, \<open>M = 2\<close>, two acquires and a release.
\<close>

theorem C1_size_bounds_witness:
  "(1::nat) \<le> 2
   \<and> pool_after quiet_world 0 1 2 [Acquire, Acquire, Act (Release 0)] \<noteq> None
   \<and> list_all lease_op [Acquire, Acquire, Act (Release 0)]
   \<and> releases_only quiet_world
   \<and> p_acquiring (the (pool_after quiet_world 0 1 2 [Acquire, Acquire, Act (Release 0)])) = 0
   \<and> freesize (the (pool_after quiet_world 0 1 2 [Acquire, Acquire, Act (Release 0)]))
      + card (p_used (the (pool_after quiet_world 0 1 2 [Acquire, Acquire, Act (Release 0)]))) \<le> 2
   \<and> 1 \<le> freesize (the (pool_after quiet_world 0 1 2 [Acquire, Acquire, Act (Release 0)]))
      + card (p_used (the (pool_after quiet_world 0 1 2 [Acquire, Acquire, Act (Release 0)])))
      + p_acquiring (the (pool_after quiet_world 0 1 2 [Acquire, Acquire, Act (Release 0)]))"
proof -
  have a: "pool_after quiet_world 0 1 2 [Acquire, Acquire, Act (Release 0)]
      = Some (the (pool_after quiet_world 0 1 2 [Acquire, Acquire, Act (Release 0)]))"
    by (simp add: pool_eval quiet_world_def)
  have le: "(1::nat) \<le> 2" by simp
  have n: "pool_after quiet_world 0 1 2 [Acquire, Acquire, Act (Release 0)] \<noteq> None"
    using a by (rule ssubst) (rule option.distinct)
  have l: "list_all lease_op [Acquire, Acquire, Act (Release 0)]" by simp
  have q: "releases_only quiet_world" by (simp add: releases_only_def quiet_world_def)
  from C1_size_bounds [OF le a] n le l q show ?thesis by blast
qed

text \<open>
  Claim C2. In every pool reached from \<^verbatim>\<open>create_pool\<close> by any sequence of operations, no
  connection is both in the free list and in the leased set (and the free list holds no
  connection twice); the pool after a further \<^verbatim>\<open>release\<close> of any connection, and after
  a further \<^verbatim>\<open>acquire\<close> that returns, raises or waits, has the property again. The leased
  collection is a Python set, here a HOL set: a connection is a member or not, so it
  cannot be leased twice over.
\<close>

theorem C2_free_leased_disjoint:
  assumes "pool_after w d m M ops = Some s"
  shows "set (p_pool s) \<inter> p_used s = {} \<and> distinct (p_pool s)
    \<and> (\<forall>c. set (p_pool (snd (release c s))) \<inter> p_used (snd (release c s)) = {})
    \<and> (\<forall>r s'. acquire w s = Some (r, s') \<longrightarrow> set (p_pool s') \<inter> p_used s' = {})"
proof -
  have inv: "well_formed s" using assms by (rule after_wf)
  have rel: "well_formed (snd (release c s))" for c using inv by (rule release_wf)
  have acq: "well_formed s'" if "acquire w s = Some (r, s')" for r s'
    using that inv by (rule acquire_wf)
  show ?thesis using inv rel acq unfolding well_formed_def by blast
qed

text \<open>
  Claim C2, an instance of the theorem: two connections leased, one released.
\<close>

theorem C2_free_leased_disjoint_witness:
  "pool_after quiet_world 0 1 2 [Acquire, Acquire, Act (Release 0)] \<noteq> None
   \<and> set (p_pool (the (pool_after quiet_world 0 1 2 [Acquire, Acquire, Act (Release 0)])))
       \<inter> p_used (the (pool_after quiet_world 0 1 2 [Acquire, Acquire, Act (Release 0)])) = {}"
proof -
  have a: "pool_after quiet_world 0 1 2 [Acquire, Acquire, Act (Release 0)]
      = Some (the (pool_after quiet_world 0 1 2 [Acquire, Acquire, Act (Release 0)]))"
    by (simp add: pool_eval quiet_world_def)
  have n: "pool_after quiet_world 0 1 2 [Acquire, Acquire, Act (Release 0)] \<noteq> None"
    using a by (rule ssubst) (rule option.distinct)
  from C2_free_leased_disjoint [OF a] n show ?thesis by blast
qed

text \<open>
  Claim C3. \<^verbatim>\<open>release\<close> of a connection that is not in the leased set raises the
  assertion's error (the spec's MisuseError) and returns the pool unchanged: free list,
  leased set, pending count, database index, and no wake-up scheduled.
\<close>

theorem C3_release_not_leased:
  assumes "c \<notin> p_used s"
  shows "release c s = (Raise AssertionError, s)"
  using assms by (simp add: release_def)

text \<open>
  Claim C3, an instance of the theorem: connection 7 on a pool that has leased nothing.
\<close>

theorem C3_release_not_leased_witness:
  "7 \<notin> p_used (RedisPool_init 0 1 1)
   \<and> release 7 (RedisPool_init 0 1 1) = (Raise AssertionError, RedisPool_init 0 1 1)"
proof -
  have h: "7 \<notin> p_used (RedisPool_init 0 1 1)" by (simp add: RedisPool_init_def)
  from C3_release_not_leased [OF h] h show ?thesis by simp
qed

text \<open>
  Claim C4 fails on the code. With \<^verbatim>\<open>maxsize\<close> 0 and \<^verbatim>\<open>minsize\<close> above 0, and a factory
  that never fails, the fill-to-minimum loop never ends, whatever other tasks do at the
  suspensions: \<^verbatim>\<open>deque(maxlen=0).append\<close> discards each new connection, so the size
  never grows. \<^verbatim>\<open>create_pool\<close> does not return, and neither does the refill of an
  \<^verbatim>\<open>acquire\<close> on any such pool that has nothing free, leased or pending.
\<close>

theorem C4_fill_never_returns:
  "create_pool (always_created w) d (Suc m) 0 = None
   \<and> acquire (always_created w)
        (s\<lparr>p_minsize := Suc m, p_maxlen := 0, p_pool := [], p_used := {}, p_acquiring := 0\<rparr>)
      = None"
proof -
  have st: "starved (RedisPool_init d (Suc m) 0)"
    by (simp add: starved_def RedisPool_init_def)
  have st': "starved
      (s\<lparr>p_minsize := Suc m, p_maxlen := 0, p_pool := [], p_used := {}, p_acquiring := 0\<rparr>)"
    by (simp add: starved_def)
  have "fill_min (always_created w) (RedisPool_init d (Suc m) 0) = None"
    by (rule fill_min_starved [OF _ st]) (simp add: always_created_def)
  moreover have "fill_min (always_created w)
      (s\<lparr>p_minsize := Suc m, p_maxlen := 0, p_pool := [], p_used := {}, p_acquiring := 0\<rparr>) = None"
    by (rule fill_min_starved [OF _ st']) (simp add: always_created_def)
  ultimately show ?thesis by (simp add: create_pool_def acquire_def fill_free_def)
qed

text \<open>
  Claim C5 fails on the code. \<^verbatim>\<open>minsize\<close> 2, \<^verbatim>\<open>maxsize\<close> 1, and a factory that fails the
  third time: the first connection (0) is appended to the free list; the loop goes on
  since the size is 1; the second connection (1) is appended to the full deque, which
  discards 0; the third creation raises. The free list is \<open>[1]\<close>, and connection 0 is
  not free, not leased and not closed: the insertion at capacity evicted it and nothing
  called \<^verbatim>\<open>close()\<close> on it.
\<close>

theorem C5_eviction_unclosed:
  "map_option fst (create_pool fail_third 0 2 1) = Some (Raise CreationError)
   \<and> map_option (p_pool \<circ> snd) (create_pool fail_third 0 2 1) = Some [1]
   \<and> map_option (leaked 0 \<circ> snd) (create_pool fail_third 0 2 1) = Some True"
  by (simp add: pool_eval fail_third_def leaked_def)

text \<open>
  Claim C6 fails on the code. A leased connection enters a transaction and is released:
  \<^verbatim>\<open>release\<close> closes it and schedules \<^verbatim>\<open>_wakeup()\<close> with no argument. When the task
  runs, it notifies and does nothing else: \<^verbatim>\<open>wait_closed()\<close> is never called on the closed
  connection.
\<close>

theorem C6_release_never_waits:
  "map_option (is_closed 0)
      (pool_after quiet_world 0 1 1 [Acquire, Act (SetTransaction 0 True), Act (Release 0)]) = Some True
   \<and> map_option tasks
      (pool_after quiet_world 0 1 1 [Acquire, Act (SetTransaction 0 True), Act (Release 0)])
      = Some [Wakeup None]
   \<and> map_option trace
      (pool_after quiet_world 0 1 1 [Acquire, Act (SetTransaction 0 True), Act (Release 0), RunTask])
      = Some [Notify]
   \<and> set (tasks (snd (release c s))) \<subseteq> insert (Wakeup None) (set (tasks s))"
proof -
  have "set (tasks (snd (release c s))) \<subseteq> insert (Wakeup None) (set (tasks s))"
    by (auto simp: release_def conn_close_def Let_def)
  then show ?thesis by (simp add: pool_eval quiet_world_def)
qed

text \<open>
  Claim C7. Let the first \<open>n\<close> creations of a refill started on the pool \<open>s\<close> succeed
  (each in the fill-to-minimum loop), and let the factory fail at the next creation, be it
  in the loop or the one creation beyond it. Then \<^verbatim>\<open>_fill_free\<close> raises the error, and so
  does the \<^verbatim>\<open>acquire\<close> or the \<^verbatim>\<open>create_pool\<close> that called it. The pending count of the pool
  left behind is the one at the call; when no other task ran during the failed attempt,
  the pool is the one before that attempt (but for the suspension passed). Apart from
  this, for every return of \<^verbatim>\<open>_fill_free\<close> the pending count is the one at the call, and every
  error it raises is raised by \<^verbatim>\<open>acquire\<close>.
\<close>

theorem C7_creation_failure:
  "((\<forall>i < n. size_pool (created w i s) < minsize (created w i s) \<and> factory_ok w (clock s + i))
     \<and> \<not> factory_ok w (clock s + n)
     \<and> (size_pool (created w n s) < minsize (created w n s)
        \<or> (freesize (created w n s) = 0 \<and> ov
            \<and> size_pool (created w n s) < maxsize (created w n s)))
    \<longrightarrow> fill_free w ov s = Some (Raise CreationError, snd (create_into_free w (created w n s)))
      \<and> (ov \<longrightarrow> acquire w s
            = Some (Raise CreationError, snd (create_into_free w (created w n s))))
      \<and> (\<not> ov \<and> s = RedisPool_init d m M \<longrightarrow> create_pool w d m M
            = Some (Raise CreationError, snd (create_into_free w (created w n s))))
      \<and> p_acquiring (snd (create_into_free w (created w n s))) = p_acquiring s
      \<and> (during w (clock s + n) = [] \<longrightarrow>
            snd (create_into_free w (created w n s))
            = (created w n s)\<lparr>clock := Suc (clock s + n)\<rparr>))
   \<and> (fill_free w b t = Some (r, t') \<longrightarrow> p_acquiring t' = p_acquiring t)
   \<and> (fill_free w True t = Some (Raise e, t') \<longrightarrow> acquire w t = Some (Raise e, t'))"
proof -
  let ?c = "created w n s"
  have main: "fill_free w ov s = Some (Raise CreationError, snd (create_into_free w ?c))
      \<and> (ov \<longrightarrow> acquire w s = Some (Raise CreationError, snd (create_into_free w ?c)))
      \<and> (\<not> ov \<and> s = RedisPool_init d m M \<longrightarrow> create_pool w d m M
            = Some (Raise CreationError, snd (create_into_free w ?c)))
      \<and> p_acquiring (snd (create_into_free w ?c)) = p_acquiring s
      \<and> (during w (clock s + n) = [] \<longrightarrow>
            snd (create_into_free w ?c) = ?c\<lparr>clock := Suc (clock s + n)\<rparr>)"
    if before: "\<forall>i < n. size_pool (created w i s) < minsize (created w i s)
          \<and> factory_ok w (clock s + i)"
      and fails: "\<not> factory_ok w (clock s + n)"
      and attempted: "size_pool ?c < minsize ?c
          \<or> (freesize ?c = 0 \<and> ov \<and> size_pool ?c < maxsize ?c)"
  proof -
    have ck: "clock ?c = clock s + n" and pa: "p_acquiring ?c = p_acquiring s"
      using created_frame [of w n s] by simp_all
    have f: "\<not> factory_ok w (clock ?c)" using fails ck by simp
    have "fill_free w ov ?c = Some (Raise CreationError, snd (create_into_free w ?c))"
      using f attempted by (rule fill_free_fails)
    then have ff: "fill_free w ov s = Some (Raise CreationError, snd (create_into_free w ?c))"
      using fill_free_created [OF before, of ov] by simp
    have acq: "ov \<longrightarrow> acquire w s = Some (Raise CreationError, snd (create_into_free w ?c))"
      using ff by (auto intro: acquire_raises)
    have cp: "\<not> ov \<and> s = RedisPool_init d m M \<longrightarrow> create_pool w d m M
        = Some (Raise CreationError, snd (create_into_free w ?c))"
      using ff by (auto simp: create_pool_def)
    have pend: "p_acquiring (snd (create_into_free w ?c)) = p_acquiring s"
      using pa by (simp add: create_frame)
    have same: "during w (clock s + n) = [] \<longrightarrow>
        snd (create_into_free w ?c) = ?c\<lparr>clock := Suc (clock s + n)\<rparr>"
      using quiet_failed_attempt [OF f] ck by simp
    from ff acq cp pend same show ?thesis by blast
  qed
  have every: "fill_free w b t = Some (r, t') \<longrightarrow> p_acquiring t' = p_acquiring t"
    by (auto dest: fill_free_frame)
  have thru: "fill_free w True t = Some (Raise e, t') \<longrightarrow> acquire w t = Some (Raise e, t')"
    by (simp add: acquire_raises)
  from main every thru show ?thesis by blast
qed

text \<open>
  Claim C7, an instance of the theorem: a new pool with \<^verbatim>\<open>minsize\<close> 2 and a factory that
  succeeds once and then fails (\<open>n = 1\<close>).
\<close>

theorem C7_creation_failure_witness:
  "size_pool (created fail_second 0 (RedisPool_init 0 2 2))
        < minsize (created fail_second 0 (RedisPool_init 0 2 2))
   \<and> factory_ok fail_second (clock (RedisPool_init 0 2 2) + 0)
   \<and> \<not> factory_ok fail_second (clock (RedisPool_init 0 2 2) + 1)
   \<and> size_pool (created fail_second 1 (RedisPool_init 0 2 2))
        < minsize (created fail_second 1 (RedisPool_init 0 2 2))
   \<and> acquire fail_second (RedisPool_init 0 2 2)
       = Some (Raise CreationError,
           snd (create_into_free fail_second (created fail_second 1 (RedisPool_init 0 2 2))))
   \<and> create_pool fail_second 0 2 2
       = Some (Raise CreationError,
           snd (create_into_free fail_second (created fail_second 1 (RedisPool_init 0 2 2))))
   \<and> p_acquiring
        (snd (create_into_free fail_second (created fail_second 1 (RedisPool_init 0 2 2))))
       = p_acquiring (RedisPool_init 0 2 2)"
proof -
  have b0: "size_pool (created fail_second 0 (RedisPool_init 0 2 2))
        < minsize (created fail_second 0 (RedisPool_init 0 2 2))"
    by (simp add: RedisPool_init_def size_pool_def freesize_def minsize_def)
  have f0: "factory_ok fail_second (clock (RedisPool_init 0 2 2) + 0)"
    by (simp add: fail_second_def RedisPool_init_def)
  have b: "\<forall>i < 1. size_pool (created fail_second i (RedisPool_init 0 2 2))
        < minsize (created fail_second i (RedisPool_init 0 2 2))
      \<and> factory_ok fail_second (clock (RedisPool_init 0 2 2) + i)"
  proof (intro allI impI)
    fix i :: nat assume "i < 1"
    then have "i = 0" by simp
    with b0 f0 show "size_pool (created fail_second i (RedisPool_init 0 2 2))
        < minsize (created fail_second i (RedisPool_init 0 2 2))
      \<and> factory_ok fail_second (clock (RedisPool_init 0 2 2) + i)" by simp
  qed
  have f: "\<not> factory_ok fail_second (clock (RedisPool_init 0 2 2) + 1)"
    by (simp add: fail_second_def RedisPool_init_def)
  have z: "size_pool (created fail_second 1 (RedisPool_init 0 2 2))
        < minsize (created fail_second 1 (RedisPool_init 0 2 2))"
    by (simp add: pool_eval fail_second_def)
  from C7_creation_failure [where n = 1 and w = fail_second and s = "RedisPool_init 0 2 2"
      and ov = True and d = 0 and m = 2 and M = 2]
    C7_creation_failure [where n = 1 and w = fail_second and s = "RedisPool_init 0 2 2"
      and ov = False and d = 0 and m = 2 and M = 2]
    b0 f0 b f z
  show ?thesis by blast
qed

text \<open>
  Claim C8 fails on the code. \<^verbatim>\<open>minsize\<close> 1, \<^verbatim>\<open>maxsize\<close> 2, database index 0. Connections
  0 and 1 are leased, 0 is released. \<^verbatim>\<open>select(1)\<close> computes \<^verbatim>\<open>range(1)\<close> and suspends in
  the \<^verbatim>\<open>select\<close> of connection 0; meanwhile the holder of connection 1 releases it, and
  \<^verbatim>\<open>release\<close>, which takes no lock, finds it on the pool's index (still 0) and appends
  it. \<^verbatim>\<open>select\<close> ends and sets the pool's index to 1. The next \<^verbatim>\<open>acquire\<close> returns
  connection 0, the one after it connection 1, which is on index 0.
\<close>

theorem C8_release_during_select:
  "map_option fst
      (Option.bind (pool_after race_world 0 1 2 [Acquire, Acquire, Act (Release 0), Select 1, Acquire])
         (acquire race_world)) = Some (Ok (Got 1))
   \<and> map_option (db_of 1)
      (pool_after race_world 0 1 2 [Acquire, Acquire, Act (Release 0), Select 1, Acquire]) = Some 0
   \<and> map_option db
      (pool_after race_world 0 1 2 [Acquire, Acquire, Act (Release 0), Select 1, Acquire]) = Some 1"
  by (simp add: pool_eval race_world_def)

text \<open>
  Claim C9, amended. When \<^verbatim>\<open>release\<close> of a leased connection returns, the connection is
  out of the leased set, it has been appended to the free list (when it is open, not in a
  transaction, on the pool's index, and there is room) or is closed (otherwise), and a
  \<^verbatim>\<open>_wakeup\<close> task has been scheduled last on the event loop. No notify has been issued
  by then; the task issues it when the event loop runs it.
\<close>

theorem C9_release_schedules_wakeup:
  assumes "c \<in> p_used s"
  shows "fst (release c s) = Ok ()
    \<and> p_used (snd (release c s)) = p_used s - {c}
    \<and> p_pool (snd (release c s)) =
        (if recycles c s \<and> freesize s < maxsize s then p_pool s @ [c] else p_pool s)
    \<and> closed (heap (snd (release c s)) c) = (\<not> (recycles c s \<and> freesize s < maxsize s))
    \<and> trace (snd (release c s)) = trace s
    \<and> tasks (snd (release c s)) = tasks s @ [Wakeup None]
    \<and> trace (wakeup None t) = trace t @ [Notify]"
  using assms
  by (auto simp: release_def recycles_def conn_close_def Let_def freesize_def maxsize_def db_def
      deque_append_room wakeup_def)

text \<open>
  Claim C9, an instance of the theorem: the release of the one leased connection.
\<close>

theorem C9_release_schedules_wakeup_witness:
  "0 \<in> p_used (the (pool_after quiet_world 0 1 1 [Acquire]))
   \<and> fst (release 0 (the (pool_after quiet_world 0 1 1 [Acquire]))) = Ok ()
   \<and> trace (snd (release 0 (the (pool_after quiet_world 0 1 1 [Acquire]))))
       = trace (the (pool_after quiet_world 0 1 1 [Acquire]))
   \<and> tasks (snd (release 0 (the (pool_after quiet_world 0 1 1 [Acquire]))))
       = tasks (the (pool_after quiet_world 0 1 1 [Acquire])) @ [Wakeup None]"
proof -
  have u: "0 \<in> p_used (the (pool_after quiet_world 0 1 1 [Acquire]))"
    by (simp add: pool_eval quiet_world_def)
  from C9_release_schedules_wakeup [OF u] u show ?thesis by blast
qed

text \<open>
  Claim C9 as stated fails. After \<^verbatim>\<open>acquire\<close> and \<^verbatim>\<open>release\<close> of the one connection of a
  pool, the connection is back in the free list, the \<^verbatim>\<open>_wakeup\<close> task is scheduled and has
  not run, and no notify has been issued.
\<close>

theorem C9_counterexample:
  "map_option census (pool_after quiet_world 0 1 1 [Acquire, Act (Release 0)]) = Some (1, 0, 0)
   \<and> map_option tasks (pool_after quiet_world 0 1 1 [Acquire, Act (Release 0)]) = Some [Wakeup None]
   \<and> map_option trace (pool_after quiet_world 0 1 1 [Acquire, Act (Release 0)]) = Some []"
  by (simp add: pool_eval quiet_world_def)

text \<open>
  Claim C10 fails on the code. \<^verbatim>\<open>minsize\<close> 1, \<^verbatim>\<open>maxsize\<close> 2, database index 0. Connections
  0 and 1 are leased and 0 is released, so the free list is \<open>[0]\<close>. \<^verbatim>\<open>select(1)\<close> suspends
  in the \<^verbatim>\<open>select\<close> of connection 0; meanwhile the holder of connection 1 releases it, and
  \<^verbatim>\<open>release\<close> appends it to the free list. The loop over \<^verbatim>\<open>range(1)\<close> ends, \<^verbatim>\<open>select\<close>
  returns and the pool's index is assigned 1 while connection 1 is in the free list and
  has not been switched: it is on index 0.
\<close>

theorem C10_assigned_with_unswitched_free:
  "map_option (fst \<circ> select race_world 1)
      (pool_after race_world 0 1 2 [Acquire, Acquire, Act (Release 0)]) = Some (Ok ())
   \<and> map_option p_pool
      (pool_after race_world 0 1 2 [Acquire, Acquire, Act (Release 0)]) = Some [0]
   \<and> map_option db
      (pool_after race_world 0 1 2 [Acquire, Acquire, Act (Release 0), Select 1]) = Some 1
   \<and> map_option p_pool
      (pool_after race_world 0 1 2 [Acquire, Acquire, Act (Release 0), Select 1]) = Some [0, 1]
   \<and> map_option (db_of 0)
      (pool_after race_world 0 1 2 [Acquire, Acquire, Act (Release 0), Select 1]) = Some 1
   \<and> map_option (db_of 1)
      (pool_after race_world 0 1 2 [Acquire, Acquire, Act (Release 0), Select 1]) = Some 0"
  by (simp add: pool_eval race_world_def)

end
